theory Spec2Isabelle
  imports Main "HOL-Library.Signed_Division" "HOL-Library.Word"
begin

section \<open>C integer arithmetic\<close>

text \<open>
  The sketches compute on C \<open>int\<close>, 32 bits wide on the ESP32-P4. Values are modelled as
  \<open>int\<close>, and every arithmetic result is reduced to the two's-complement range by
  \<open>int32_wrap\<close>, which is what the RISC-V instructions do on overflow. C's \<open>/\<close> truncates
  towards zero: it is \<open>sdiv\<close>, not HOL's flooring \<open>div\<close>.
\<close>

definition INT_MAX :: int where
  "INT_MAX = 2147483647"

definition int32_wrap :: "int \<Rightarrow> int" where
  "int32_wrap x = (x + 2147483648) mod 4294967296 - 2147483648"

section \<open>Example 10: battery ADC\<close>

definition ADC_SAMPLES :: int where
  "ADC_SAMPLES = 500"

text \<open>
  The ADC is read at its default width of 12 bits: a raw sample lies between 0 and 4095,
  the value the fallback conversion of \<open>read_battery_voltage\<close> takes for full scale.
\<close>

definition ADC_RAW_MAX :: int where
  "ADC_RAW_MAX = 4095"

definition BATTERY_V_MAX :: int where
  "BATTERY_V_MAX = 2500"

definition BATTERY_V_MIN :: int where
  "BATTERY_V_MIN = 2250"

text \<open>
  \<open>calculate_battery_percent\<close>: the two clamps come first, the interpolation is only
  reached strictly between the thresholds.
\<close>

definition calculate_battery_percent :: "int \<Rightarrow> int" where
  "calculate_battery_percent voltage_mv =
     (if voltage_mv \<ge> BATTERY_V_MAX then 100
      else if voltage_mv \<le> BATTERY_V_MIN then 0
      else
        let percent =
          int32_wrap (int32_wrap (int32_wrap (voltage_mv - BATTERY_V_MIN) * 100)
                        sdiv int32_wrap (BATTERY_V_MAX - BATTERY_V_MIN))
        in percent)"

text \<open>
  The sampling loop of \<open>read_battery_voltage\<close>. \<open>reads\<close> lists what the successive calls
  of \<open>adc_oneshot_read\<close> deliver: \<open>Some raw_value\<close>, or \<open>None\<close> when the driver reports an
  error, on which \<open>ESP_ERROR_CHECK\<close> aborts. The loop runs while \<open>i < ADC_SAMPLES\<close> and
  adds each reading to \<open>raw_sum\<close> in \<open>int\<close> arithmetic; the first argument counts the
  iterations left. A list that ends before the loop does describes no run of the loop
  and gives \<open>None\<close> as well.
\<close>

fun sample_loop :: "nat \<Rightarrow> int \<Rightarrow> int option list \<Rightarrow> int option" where
  "sample_loop 0 raw_sum reads = Some raw_sum"
| "sample_loop (Suc n) raw_sum [] = None"
| "sample_loop (Suc n) raw_sum (None # reads) = None"
| "sample_loop (Suc n) raw_sum (Some raw_value # reads) =
     sample_loop n (int32_wrap (raw_sum + raw_value)) reads"

definition raw_average :: "int option list \<Rightarrow> int option" where
  "raw_average reads =
     (case sample_loop (nat ADC_SAMPLES) 0 reads of
        None \<Rightarrow> None
      | Some raw_sum \<Rightarrow> Some (int32_wrap (raw_sum sdiv ADC_SAMPLES)))"

text \<open>
  \<open>read_battery_voltage\<close>: the average is converted by the calibration scheme
  (\<open>adc_cali_raw_to_voltage\<close>, a driver function taken as the parameter \<open>cali\<close>, \<open>None\<close>
  when it fails) or, uncalibrated, by the linear scale \<open>raw_avg * 3300 / 4095\<close>.
\<close>

definition read_battery_voltage ::
    "bool \<Rightarrow> (int \<Rightarrow> int option) \<Rightarrow> int option list \<Rightarrow> int option" where
  "read_battery_voltage adc_calibrated cali reads =
     (case raw_average reads of
        None \<Rightarrow> None
      | Some raw_avg \<Rightarrow>
          if adc_calibrated then cali raw_avg
          else Some (int32_wrap (int32_wrap (raw_avg * 3300) sdiv 4095)))"

section \<open>Example 05: WiFi HTTP, the event handler\<close>

text \<open>
  The handler receives an event base and an event id. The ids the handler names are
  constructors; every other id of a base is \<open>WIFI_EVENT_OTHER\<close> or \<open>IP_EVENT_OTHER\<close>.
  \<open>IP_EVENT_STA_GOT_IP\<close> carries the address of its event data.
\<close>

datatype wifi_event_id = WIFI_EVENT_STA_START | WIFI_EVENT_STA_DISCONNECTED | WIFI_EVENT_OTHER

datatype ip_event_id = IP_EVENT_STA_GOT_IP "32 word" | IP_EVENT_OTHER

datatype esp_event = WIFI_EVENT wifi_event_id | IP_EVENT ip_event_id | OTHER_EVENT_BASE

text \<open>What the handler does to the outside, in the order it does it.\<close>

datatype wifi_action =
    Esp_wifi_connect
  | Set_WIFI_FAIL_BIT
  | Set_WIFI_CONNECTED_BIT
  | Set_ip_label "32 word"

record wifi_state =
  wifi_retry_count :: int
  fail_bit :: bool
  connected_bit :: bool
  ip_label :: bool
  wifi_actions :: "wifi_action list"

definition WIFI_MAX_RETRY :: int where
  "WIFI_MAX_RETRY = 5"

fun wifi_event_handler :: "esp_event \<Rightarrow> wifi_state \<Rightarrow> wifi_state" where
  "wifi_event_handler (WIFI_EVENT WIFI_EVENT_STA_START) s =
     s\<lparr>wifi_actions := wifi_actions s @ [Esp_wifi_connect]\<rparr>"
| "wifi_event_handler (WIFI_EVENT WIFI_EVENT_STA_DISCONNECTED) s =
     (if wifi_retry_count s < WIFI_MAX_RETRY then
        s\<lparr>wifi_actions := wifi_actions s @ [Esp_wifi_connect],
          wifi_retry_count := int32_wrap (wifi_retry_count s + 1)\<rparr>
      else
        s\<lparr>fail_bit := True, wifi_actions := wifi_actions s @ [Set_WIFI_FAIL_BIT]\<rparr>)"
| "wifi_event_handler (WIFI_EVENT WIFI_EVENT_OTHER) s = s"
| "wifi_event_handler (IP_EVENT (IP_EVENT_STA_GOT_IP ip)) s =
     (let s1 = s\<lparr>wifi_retry_count := 0, connected_bit := True,
                   wifi_actions := wifi_actions s @ [Set_WIFI_CONNECTED_BIT]\<rparr>
      in if ip_label s1 then s1\<lparr>wifi_actions := wifi_actions s1 @ [Set_ip_label ip]\<rparr>
         else s1)"
| "wifi_event_handler (IP_EVENT IP_EVENT_OTHER) s = s"
| "wifi_event_handler OTHER_EVENT_BASE s = s"

text \<open>The event loop delivers events to the handler one after the other.\<close>

fun wifi_events :: "esp_event list \<Rightarrow> wifi_state \<Rightarrow> wifi_state" where
  "wifi_events [] s = s"
| "wifi_events (e # es) s = wifi_events es (wifi_event_handler e s)"

definition wifi_start :: wifi_state where
  "wifi_start = \<lparr>wifi_retry_count = 0, fail_bit = False, connected_bit = False,
                  ip_label = True, wifi_actions = []\<rparr>"

section \<open>Example 08: reset device, the countdown\<close>

text \<open>
  A label shows either a fixed text or a format with its integer argument
  (\<open>lv_label_set_text_fmt\<close>). A widget pointer is \<open>None\<close> while it is \<open>NULL\<close>.
\<close>

datatype label_text = Text string | Fmt string int

record reset_state =
  countdown_active :: bool
  countdown_value :: int
  countdown_timer :: bool
  countdown_label :: "label_text option"
  delayed_label :: "label_text option"
  restarted :: bool

text \<open>
  \<open>countdown_timer\<close> tells whether the LVGL timer exists; \<open>delayed_label\<close> is child 0 of
  the delayed-reset button; \<open>restarted\<close> records that \<open>esp_restart\<close> was called.
\<close>

definition countdown_timer_cb :: "reset_state \<Rightarrow> reset_state" where
  "countdown_timer_cb s =
     (if \<not> countdown_active s then s\<lparr>countdown_timer := False\<rparr>
      else
        let s1 = s\<lparr>countdown_value := int32_wrap (countdown_value s - 1)\<rparr>;
            s2 = (if countdown_label s1 \<noteq> None then
                    if countdown_value s1 > 0 then
                      s1\<lparr>countdown_label :=
                            Some (Fmt ''Resetting in %d...'' (countdown_value s1))\<rparr>
                    else s1\<lparr>countdown_label := Some (Text ''Resetting NOW!'')\<rparr>
                  else s1)
        in if countdown_value s2 \<le> 0 then
             s2\<lparr>countdown_active := False, countdown_timer := False, restarted := True\<rparr>
           else s2)"

definition delayed_reset_btn_cb :: "reset_state \<Rightarrow> reset_state" where
  "delayed_reset_btn_cb s =
     (if countdown_active s then
        let s1 = s\<lparr>countdown_active := False, countdown_value := 5\<rparr>;
            s2 = (if countdown_label s1 \<noteq> None
                  then s1\<lparr>countdown_label := Some (Text ''Countdown cancelled'')\<rparr> else s1)
        in if delayed_label s2 \<noteq> None
           then s2\<lparr>delayed_label := Some (Text ''Reset in 5s'')\<rparr> else s2
      else
        let s1 = s\<lparr>countdown_active := True, countdown_value := 5\<rparr>;
            s2 = (if countdown_label s1 \<noteq> None
                  then s1\<lparr>countdown_label :=
                           Some (Fmt ''Resetting in %d...'' (countdown_value s1))\<rparr>
                  else s1);
            s3 = (if delayed_label s2 \<noteq> None
                  then s2\<lparr>delayed_label := Some (Text ''Cancel'')\<rparr> else s2)
        in if \<not> countdown_timer s3 then s3\<lparr>countdown_timer := True\<rparr> else s3)"

text \<open>
  What LVGL delivers to the countdown: a period of the countdown timer has elapsed, or
  the delayed-reset button was clicked. The timer callback only runs while the timer
  exists, and nothing runs any more once \<open>esp_restart\<close> was called. The other button,
  ``Reset Now'', restarts at once and takes no part in the countdown.
\<close>

datatype reset_event = Timer_period | Delayed_btn_clicked

fun reset_step :: "reset_event \<Rightarrow> reset_state \<Rightarrow> reset_state" where
  "reset_step Timer_period s =
     (if restarted s then s else if countdown_timer s then countdown_timer_cb s else s)"
| "reset_step Delayed_btn_clicked s = (if restarted s then s else delayed_reset_btn_cb s)"

fun reset_run :: "reset_event list \<Rightarrow> reset_state \<Rightarrow> reset_state" where
  "reset_run [] s = s"
| "reset_run (e # es) s = reset_run es (reset_step e s)"

text \<open>The state once \<open>create_ui\<close> has run: the static initialisers and the first texts.\<close>

definition reset_idle :: reset_state where
  "reset_idle = \<lparr>countdown_active = False, countdown_value = 5, countdown_timer = False,
                  countdown_label = Some (Text ''Press a button to reset''),
                  delayed_label = Some (Text ''Reset in 5s''), restarted = False\<rparr>"

section \<open>Example 06: SD card, mount and unmount\<close>

type_synonym esp_err_t = int

definition ESP_OK :: esp_err_t where
  "ESP_OK = 0"

text \<open>
  The power-rail handle and the card pointer are opaque pointers: \<open>None\<close> is \<open>NULL\<close>,
  \<open>Some p\<close> an object of the driver.
\<close>

type_synonym sd_pwr_ctrl_handle_t = nat
type_synonym sdmmc_card_ptr = nat

text \<open>
  The ESP-IDF drivers are outside the repository. What they answer to one button click is
  the input \<open>sd_driver\<close>: the return code of each call and the object it hands out. As in
  ESP-IDF, a call writes its out-parameter only when it returns \<open>ESP_OK\<close>.
\<close>

record sd_driver =
  ldo_new :: "esp_err_t \<times> sd_pwr_ctrl_handle_t"
  fat_mount :: "esp_err_t \<times> sdmmc_card_ptr"
  fat_unmount :: esp_err_t

text \<open>The driver calls made, each with its arguments and its answer.\<close>

datatype drv_call =
    Sd_pwr_ctrl_new_on_chip_ldo esp_err_t sd_pwr_ctrl_handle_t
  | Esp_vfs_fat_sdmmc_mount "sd_pwr_ctrl_handle_t option" esp_err_t
  | Sd_pwr_ctrl_del_on_chip_ldo "sd_pwr_ctrl_handle_t option"
  | Esp_vfs_fat_sdcard_unmount "sdmmc_card_ptr option" esp_err_t

record sd_state =
  sd_card :: "sdmmc_card_ptr option"
  sd_pwr_ctrl_handle :: "sd_pwr_ctrl_handle_t option"
  sd_mounted :: bool
  status_label :: label_text
  mount_btn_label :: label_text
  drv_calls :: "drv_call list"

definition sd_mount :: "sd_driver \<Rightarrow> sd_state \<Rightarrow> esp_err_t \<times> sd_state" where
  "sd_mount drv s =
     (let ret = fst (ldo_new drv);
          s1 = s\<lparr>drv_calls := drv_calls s @ [Sd_pwr_ctrl_new_on_chip_ldo ret (snd (ldo_new drv))]\<rparr>;
          s2 = (if ret = ESP_OK then s1\<lparr>sd_pwr_ctrl_handle := Some (snd (ldo_new drv))\<rparr> else s1)
      in if ret \<noteq> ESP_OK then (ret, s2)
         else
           let ret = fst (fat_mount drv);
               s3 = s2\<lparr>drv_calls := drv_calls s2 @
                          [Esp_vfs_fat_sdmmc_mount (sd_pwr_ctrl_handle s2) ret]\<rparr>;
               s4 = (if ret = ESP_OK then s3\<lparr>sd_card := Some (snd (fat_mount drv))\<rparr> else s3)
           in if ret \<noteq> ESP_OK then
                (ret, s4\<lparr>drv_calls := drv_calls s4 @
                              [Sd_pwr_ctrl_del_on_chip_ldo (sd_pwr_ctrl_handle s4)],
                          sd_pwr_ctrl_handle := None\<rparr>)
              else (ret, s4))"

definition sd_unmount :: "sd_driver \<Rightarrow> sd_state \<Rightarrow> esp_err_t \<times> sd_state" where
  "sd_unmount drv s =
     (let ret = fat_unmount drv;
          s1 = s\<lparr>drv_calls := drv_calls s @ [Esp_vfs_fat_sdcard_unmount (sd_card s) ret],
                 sd_card := None\<rparr>;
          s2 = (if sd_pwr_ctrl_handle s1 \<noteq> None then
                  s1\<lparr>drv_calls := drv_calls s1 @
                         [Sd_pwr_ctrl_del_on_chip_ldo (sd_pwr_ctrl_handle s1)],
                     sd_pwr_ctrl_handle := None\<rparr>
                else s1)
      in (ret, s2))"

text \<open>
  \<open>mount_btn_click_cb\<close>. The text of a successful mount is formatted from the card the
  pointer leads to; the model keeps the format and the pointer. \<open>update_file_list\<close>,
  called last, redraws the file list from \<open>sd_mounted\<close> and the directory and changes
  none of the fields below.
\<close>

definition mount_btn_click_cb :: "sd_driver \<Rightarrow> sd_state \<Rightarrow> sd_state" where
  "mount_btn_click_cb drv s =
     (if sd_mounted s then
        let (ret, s1) = sd_unmount drv s
        in if ret = ESP_OK then
             s1\<lparr>sd_mounted := False, status_label := Text ''SD card unmounted'',
                mount_btn_label := Text ''Mount''\<rparr>
           else s1\<lparr>status_label := Text ''Unmount failed!''\<rparr>
      else
        let (ret, s1) = sd_mount drv (s\<lparr>status_label := Text ''Mounting...''\<rparr>)
        in if ret = ESP_OK then
             s1\<lparr>sd_mounted := True,
                status_label := Fmt ''Mounted: %s (%.1f MB)'' (int (the (sd_card s1))),
                mount_btn_label := Text ''Unmount''\<rparr>
           else s1\<lparr>status_label := Text ''Mount failed! Insert SD card''\<rparr>)"

text \<open>Clicks on the mount button, each with what the drivers answer during it.\<close>

fun mount_btn_clicks :: "sd_driver list \<Rightarrow> sd_state \<Rightarrow> sd_state" where
  "mount_btn_clicks [] s = s"
| "mount_btn_clicks (drv # drvs) s = mount_btn_clicks drvs (mount_btn_click_cb drv s)"

definition sd_start :: sd_state where
  "sd_start = \<lparr>sd_card = None, sd_pwr_ctrl_handle = None, sd_mounted = False,
                status_label = Text ''Press Mount to access SD card'',
                mount_btn_label = Text ''Mount'', drv_calls = []\<rparr>"

text \<open>
  The rails the LDO driver has handed out and not taken back, read off the calls made:
  a rail is leaked when it stays here without the program holding its handle.
\<close>

fun ldo_effect :: "sd_pwr_ctrl_handle_t list \<Rightarrow> drv_call \<Rightarrow> sd_pwr_ctrl_handle_t list" where
  "ldo_effect hs (Sd_pwr_ctrl_new_on_chip_ldo ret h) = (if ret = ESP_OK then h # hs else hs)"
| "ldo_effect hs (Sd_pwr_ctrl_del_on_chip_ldo (Some h)) = remove1 h hs"
| "ldo_effect hs (Sd_pwr_ctrl_del_on_chip_ldo None) = hs"
| "ldo_effect hs (Esp_vfs_fat_sdmmc_mount p ret) = hs"
| "ldo_effect hs (Esp_vfs_fat_sdcard_unmount c ret) = hs"

definition rails_held :: "drv_call list \<Rightarrow> sd_pwr_ctrl_handle_t list" where
  "rails_held calls = foldl ldo_effect [] calls"

text \<open>
  What the mount/unmount pair keeps true: the rails the driver has out are exactly the
  one the handle names, and an unmounted card has neither rail nor card object.
\<close>

definition sd_inv :: "sd_state \<Rightarrow> bool" where
  "sd_inv s \<longleftrightarrow>
     rails_held (drv_calls s) =
       (case sd_pwr_ctrl_handle s of None \<Rightarrow> [] | Some h \<Rightarrow> [h]) \<and>
     (\<not> sd_mounted s \<longrightarrow> sd_pwr_ctrl_handle s = None \<and> sd_card s = None)"

section \<open>Example 07: Bluetooth, the device list\<close>

definition MAX_DEVICES :: nat where
  "MAX_DEVICES = 20"

text \<open>
  A Bluetooth device address is six bytes; \<open>memcmp\<close> over the six bytes is equality and
  \<open>memcpy\<close> assignment. \<open>name\<close> is the C string the 32-byte buffer holds. \<open>strncpy\<close>
  with length 31 writes the first 31 bytes of the buffer and never byte 31, which is
  zero from the static initialiser on, so the string held afterwards is the source cut at
  31 characters.
\<close>

type_synonym esp_bd_addr_t = "8 word \<times> 8 word \<times> 8 word \<times> 8 word \<times> 8 word \<times> 8 word"

record ble_device_t =
  bda :: esp_bd_addr_t
  name :: string
  rssi :: "8 word"
  has_name :: bool

text \<open>
  \<open>devices\<close> is the array of \<open>MAX_DEVICES\<close> entries, \<open>device_count\<close> the number of entries
  in use (it starts at 0 and is only incremented or reset to 0, so it is a \<open>nat\<close>),
  \<open>device_mutex\<close> tells whether the mutex was created.
\<close>

record ble_state =
  devices :: "ble_device_t list"
  device_count :: nat
  device_mutex :: bool

function find_device_from :: "ble_state \<Rightarrow> esp_bd_addr_t \<Rightarrow> nat \<Rightarrow> int" where
  "find_device_from s a i =
     (if i < device_count s then
        if bda (devices s ! i) = a then int i else find_device_from s a (Suc i)
      else - 1)"
  by pat_completeness auto
termination
  by (relation "measure (\<lambda>(s, a, i). device_count s - i)") auto

definition find_device :: "ble_state \<Rightarrow> esp_bd_addr_t \<Rightarrow> int" where
  "find_device s a = find_device_from s a 0"

definition strncpy31 :: "string \<Rightarrow> string" where
  "strncpy31 src = take 31 src"

text \<open>
  \<open>add_or_update_device\<close>; the name is \<open>None\<close> for a \<open>NULL\<close> pointer. The index written is
  below \<open>device_count\<close> in the first branch and below \<open>MAX_DEVICES\<close> in the second, so
  inside the array.
\<close>

definition add_or_update_device ::
    "esp_bd_addr_t \<Rightarrow> string option \<Rightarrow> 8 word \<Rightarrow> ble_state \<Rightarrow> ble_state" where
  "add_or_update_device a nm r s =
     (if \<not> device_mutex s then s
      else
        let idx = find_device s a
        in if idx \<ge> 0 then
             let d = (devices s ! nat idx)\<lparr>rssi := r\<rparr>;
                 d' = (if nm \<noteq> None \<and> length (the nm) > 0 \<and> \<not> has_name d
                       then d\<lparr>name := strncpy31 (the nm), has_name := True\<rparr> else d)
             in s\<lparr>devices := (devices s)[nat idx := d']\<rparr>
           else if device_count s < MAX_DEVICES then
             let d = (devices s ! device_count s)\<lparr>bda := a, rssi := r\<rparr>;
                 d' = (if nm \<noteq> None \<and> length (the nm) > 0
                       then d\<lparr>name := strncpy31 (the nm), has_name := True\<rparr>
                       else d\<lparr>name := [], has_name := False\<rparr>)
             in s\<lparr>devices := (devices s)[device_count s := d'],
                  device_count := device_count s + 1\<rparr>
           else s)"

text \<open>A scan result is one call of \<open>add_or_update_device\<close>; a scan is a sequence of them.\<close>

fun scan_results ::
    "(esp_bd_addr_t \<times> string option \<times> 8 word) list \<Rightarrow> ble_state \<Rightarrow> ble_state" where
  "scan_results [] s = s"
| "scan_results ((a, nm, r) # rs) s = scan_results rs (add_or_update_device a nm r s)"

text \<open>The entries in use, and the well-formed states: those a scan can be in.\<close>

definition entries :: "ble_state \<Rightarrow> ble_device_t list" where
  "entries s = take (device_count s) (devices s)"

definition ble_wf :: "ble_state \<Rightarrow> bool" where
  "ble_wf s \<longleftrightarrow>
     length (devices s) = MAX_DEVICES \<and> device_count s \<le> MAX_DEVICES \<and>
     distinct (map bda (entries s)) \<and> device_mutex s"

text \<open>\<open>start_ble_scan\<close> clears the list: the state a scan starts from.\<close>

definition zero_device :: ble_device_t where
  "zero_device = \<lparr>bda = (0, 0, 0, 0, 0, 0), name = [], rssi = 0, has_name = False\<rparr>"

definition start_ble_scan :: "ble_state \<Rightarrow> ble_state" where
  "start_ble_scan s = s\<lparr>device_count := 0, devices := replicate MAX_DEVICES zero_device\<rparr>"

text \<open>The entries in use that carry a given address.\<close>

definition entries_of :: "ble_state \<Rightarrow> esp_bd_addr_t \<Rightarrow> ble_device_t list" where
  "entries_of s a = filter (\<lambda>d. bda d = a) (entries s)"

text \<open>
  A full list, as a scan leaves it after twenty devices with different addresses have
  each advertised the name ``dev''.
\<close>

definition numbered_device :: "nat \<Rightarrow> ble_device_t" where
  "numbered_device i =
     \<lparr>bda = (0, 0, 0, 0, 0, of_nat i), name = ''dev'', rssi = 0, has_name = True\<rparr>"

definition twenty_devices :: ble_state where
  "twenty_devices =
     \<lparr>devices = map numbered_device [0..<20], device_count = 20, device_mutex = True\<rparr>"

section \<open>Arithmetic facts\<close>

lemma int32_wrap_id: "- 2147483648 \<le> x \<Longrightarrow> x \<le> 2147483647 \<Longrightarrow> int32_wrap x = x"
  by (simp add: int32_wrap_def)

lemma sdiv_nonneg: "0 \<le> a \<Longrightarrow> 0 < b \<Longrightarrow> a sdiv b = a div (b::int)"
  by (simp add: signed_divide_int_def sgn_if)

lemma interpolation_no_overflow:
  assumes "0 < x" and "x < 250"
  shows "int32_wrap (int32_wrap (int32_wrap x * 100) sdiv int32_wrap 250) = x * 100 div 250"
proof -
  from assms have d: "0 \<le> x * 100 div 250" "x * 100 div 250 \<le> 100"
    by simp_all
  from assms have w1: "int32_wrap x = x"
    by (intro int32_wrap_id) simp_all
  from assms have w2: "int32_wrap (x * 100) = x * 100"
    by (intro int32_wrap_id) simp_all
  from d have w3: "int32_wrap (x * 100 div 250) = x * 100 div 250"
    by (intro int32_wrap_id) simp_all
  have w4: "int32_wrap 250 = 250"
    by (simp add: int32_wrap_def)
  from assms have s: "x * 100 sdiv 250 = x * 100 div 250"
    by (intro sdiv_nonneg) simp_all
  show ?thesis
    by (simp only: w1 w2 w4 s w3)
qed

lemma battery_interpolation:
  assumes "BATTERY_V_MIN < v" and "v < BATTERY_V_MAX"
  shows "calculate_battery_percent v = (v - 2250) * 100 div 250"
proof -
  from assms have r: "0 < v - 2250" "v - 2250 < 250"
    by (simp_all add: BATTERY_V_MIN_def BATTERY_V_MAX_def)
  have "calculate_battery_percent v =
      int32_wrap (int32_wrap (int32_wrap (v - 2250) * 100) sdiv int32_wrap (2500 - 2250))"
    using assms
    by (simp only: calculate_battery_percent_def BATTERY_V_MIN_def BATTERY_V_MAX_def Let_def
        not_le [symmetric] if_False simp_thms)
  also have "\<dots> = (v - 2250) * 100 div 250"
    using interpolation_no_overflow [OF r] by simp
  finally show ?thesis .
qed

lemma battery_full: "BATTERY_V_MAX \<le> v \<Longrightarrow> calculate_battery_percent v = 100"
  by (simp add: calculate_battery_percent_def)

lemma battery_empty: "v \<le> BATTERY_V_MIN \<Longrightarrow> calculate_battery_percent v = 0"
  by (simp add: calculate_battery_percent_def BATTERY_V_MIN_def BATTERY_V_MAX_def)

lemma battery_cases:
  obtains (full) "2500 \<le> v" "calculate_battery_percent v = 100"
  | (empty) "v \<le> 2250" "calculate_battery_percent v = 0"
  | (between) "2250 < v" "v < 2500" "calculate_battery_percent v = (v - 2250) * 100 div 250"
proof -
  consider "2500 \<le> v" | "v \<le> 2250" | "2250 < v \<and> v < 2500"
    by linarith
  then show thesis
  proof cases
    case 1
    then show thesis
      using full battery_full [of v] by (simp add: BATTERY_V_MAX_def)
  next
    case 2
    then show thesis
      using empty battery_empty [of v] by (simp add: BATTERY_V_MIN_def)
  next
    case 3
    then show thesis
      using between battery_interpolation [of v]
      by (simp add: BATTERY_V_MIN_def BATTERY_V_MAX_def)
  qed
qed

lemma interpolation_bounds:
  assumes "0 < x" and "x < 250"
  shows "0 \<le> x * 100 div 250 \<and> x * 100 div 250 \<le> (100::int)"
proof -
  from assms have "0 \<le> x * 100"
    by simp
  then have a: "0 \<le> x * 100 div 250"
    by (simp only: pos_imp_zdiv_nonneg_iff [of 250 "x * 100"])
  from assms have "x * 100 div 250 \<le> 25000 div 250"
    by (intro zdiv_mono1) simp_all
  then have b: "x * 100 div 250 \<le> 100"
    by simp
  from a b show ?thesis ..
qed

lemma battery_range: "0 \<le> calculate_battery_percent v \<and> calculate_battery_percent v \<le> 100"
proof (cases v rule: battery_cases)
  case between
  then have "0 < v - 2250" "v - 2250 < 250"
    by simp_all
  then have "0 \<le> (v - 2250) * 100 div 250 \<and> (v - 2250) * 100 div 250 \<le> 100"
    by (rule interpolation_bounds)
  then show ?thesis
    by (simp only: between(3))
qed simp_all

lemma battery_mono:
  assumes "v1 \<le> v2"
  shows "calculate_battery_percent v1 \<le> calculate_battery_percent v2"
proof (cases v2 rule: battery_cases)
  case full
  then show ?thesis
    using battery_range [of v1] by simp
next
  case empty
  with assms have "v1 \<le> BATTERY_V_MIN"
    by (simp add: BATTERY_V_MIN_def)
  then show ?thesis
    using empty by (simp add: battery_empty)
next
  case b2: between
  show ?thesis
  proof (cases v1 rule: battery_cases)
    case full
    with assms b2 show ?thesis by simp
  next
    case empty
    then show ?thesis
      using battery_range [of v2] by simp
  next
    case between
    from assms have "(v1 - 2250) * 100 div 250 \<le> (v2 - 2250) * 100 div 250"
      by (intro zdiv_mono1) simp_all
    with between b2 show ?thesis by simp
  qed
qed

section \<open>Battery percentage\<close>

text \<open>
  C5. \<open>calculate_battery_percent\<close> returns 100 for every voltage at or above the maximum
  of 2500 mV, 0 for every voltage at or below the minimum of 2250 mV, 50 at the midpoint
  2375 mV, and the interpolation \<open>(v - 2250) * 100 / (2500 - 2250)\<close>, in C's truncating
  division, for every voltage strictly between the thresholds.
\<close>

theorem battery_percent_mapping:
  "BATTERY_V_MAX = 2500 \<and> BATTERY_V_MIN = 2250 \<and>
   (2500 \<le> v \<longrightarrow> calculate_battery_percent v = 100) \<and>
   (v \<le> 2250 \<longrightarrow> calculate_battery_percent v = 0) \<and>
   calculate_battery_percent 2375 = 50 \<and>
   (2250 < v \<and> v < 2500 \<longrightarrow>
      calculate_battery_percent v = (v - 2250) * 100 sdiv (2500 - 2250))"
proof -
  have mid: "calculate_battery_percent 2375 = 50"
    using battery_interpolation [of 2375] by (simp add: BATTERY_V_MIN_def BATTERY_V_MAX_def)
  have between: "calculate_battery_percent v = (v - 2250) * 100 sdiv (2500 - 2250)"
    if "2250 < v" "v < 2500"
  proof -
    from that have "(v - 2250) * 100 sdiv 250 = (v - 2250) * 100 div 250"
      by (intro sdiv_nonneg) simp_all
    with that show ?thesis
      using battery_interpolation [of v] by (simp add: BATTERY_V_MIN_def BATTERY_V_MAX_def)
  qed
  show ?thesis
    using mid between battery_full [of v] battery_empty [of v]
    by (simp add: BATTERY_V_MIN_def BATTERY_V_MAX_def)
qed

theorem battery_percent_mapping_witness:
  "(2500::int) \<le> 2600 \<and> calculate_battery_percent 2600 = 100 \<and>
   (2000::int) \<le> 2250 \<and> calculate_battery_percent 2000 = 0 \<and>
   (2250::int) < 2400 \<and> (2400::int) < 2500 \<and> calculate_battery_percent 2400 = 60"
  using battery_percent_mapping [of 2600] battery_percent_mapping [of 2000]
    battery_percent_mapping [of 2400]
  by (simp add: signed_divide_int_def)

text \<open>
  C6. For every input voltage the percentage lies in \<open>[0, 100]\<close>, and the percentage
  never decreases when the voltage increases.
\<close>

theorem battery_percent_clamped_monotone:
  "0 \<le> calculate_battery_percent v \<and> calculate_battery_percent v \<le> 100 \<and>
   (v1 \<le> v2 \<longrightarrow> calculate_battery_percent v1 \<le> calculate_battery_percent v2)"
  using battery_range [of v] battery_mono [of v1 v2] by simp

theorem battery_percent_clamped_monotone_witness:
  "(2300::int) \<le> 2400 \<and> calculate_battery_percent 2300 \<le> calculate_battery_percent 2400"
  using battery_percent_clamped_monotone [of 0 2300 2400] by simp

section \<open>The sample average\<close>

lemma int32_wrap_add_left: "int32_wrap (int32_wrap a + b) = int32_wrap (a + b)"
proof -
  have "(int32_wrap a + b + 2147483648) mod 4294967296 = (a + b + 2147483648) mod 4294967296"
  proof -
    have "int32_wrap a + b + 2147483648 = (a + 2147483648) mod 4294967296 + b"
      by (simp add: int32_wrap_def)
    also have "\<dots> mod 4294967296 = (a + 2147483648 + b) mod 4294967296"
      by (rule mod_add_left_eq)
    finally show ?thesis
      by (simp add: ac_simps)
  qed
  then show ?thesis
    by (simp only: int32_wrap_def)
qed

lemma sample_loop_sum:
  "n \<le> length xs \<Longrightarrow>
   sample_loop n (int32_wrap acc) (map Some xs) = Some (int32_wrap (acc + sum_list (take n xs)))"
proof (induction n arbitrary: acc xs)
  case 0
  then show ?case by simp
next
  case (Suc n)
  then obtain y ys where xs: "xs = y # ys"
    by (cases xs) auto
  with Suc.prems have "n \<le> length ys"
    by simp
  from Suc.IH [OF this, of "acc + y"] show ?case
    by (simp add: xs int32_wrap_add_left add.assoc)
qed

lemma sum_list_lower: "\<forall>x\<in>set xs. m \<le> x \<Longrightarrow> m * int (length xs) \<le> sum_list xs"
  by (induction xs) (auto simp: algebra_simps)

lemma sum_list_upper: "\<forall>x\<in>set xs. x \<le> m \<Longrightarrow> sum_list xs \<le> m * int (length xs)"
  by (induction xs) (auto simp: algebra_simps)

lemma raw_average_no_overflow:
  assumes len: "length xs = 500" and nonneg: "\<forall>x\<in>set xs. 0 \<le> x"
    and fits: "sum_list xs \<le> INT_MAX"
  shows "raw_average (map Some xs) = Some (sum_list xs div 500)"
proof -
  from sum_list_lower [of xs 0] nonneg have s0: "0 \<le> sum_list xs"
    by simp
  have "sample_loop 500 (int32_wrap 0) (map Some xs) = Some (int32_wrap (0 + sum_list (take 500 xs)))"
    by (rule sample_loop_sum) (simp add: len)
  moreover have "int32_wrap 0 = 0"
    by (simp add: int32_wrap_def)
  moreover from s0 fits have "int32_wrap (sum_list xs) = sum_list xs"
    by (intro int32_wrap_id) (simp_all add: INT_MAX_def)
  ultimately have loop: "sample_loop 500 0 (map Some xs) = Some (sum_list xs)"
    by (simp add: len)
  from s0 have d: "sum_list xs sdiv 500 = sum_list xs div 500"
    by (intro sdiv_nonneg) simp_all
  from s0 have "0 \<le> sum_list xs div 500"
    by (simp add: pos_imp_zdiv_nonneg_iff)
  moreover have "sum_list xs div 500 \<le> sum_list xs div 1"
    using s0 by (intro zdiv_mono2) simp_all
  ultimately have "int32_wrap (sum_list xs div 500) = sum_list xs div 500"
    using fits by (intro int32_wrap_id) (simp_all add: INT_MAX_def)
  with loop d show ?thesis
    by (simp add: raw_average_def ADC_SAMPLES_def)
qed

lemma average_between:
  fixes xs :: "int list"
  assumes len: "length xs = 500"
  shows "Min (set xs) \<le> sum_list xs div 500 \<and> sum_list xs div 500 \<le> Max (set xs)"
proof -
  from len have ne: "xs \<noteq> []"
    by auto
  have "Min (set xs) * int (length xs) \<le> sum_list xs"
    by (rule sum_list_lower) simp
  then have "Min (set xs) * 500 div 500 \<le> sum_list xs div 500"
    unfolding len by (intro zdiv_mono1) simp_all
  then have lo: "Min (set xs) \<le> sum_list xs div 500"
    by simp
  have "sum_list xs \<le> Max (set xs) * int (length xs)"
    by (rule sum_list_upper) simp
  then have "sum_list xs div 500 \<le> Max (set xs) * 500 div 500"
    unfolding len by (intro zdiv_mono1) simp_all
  then have hi: "sum_list xs div 500 \<le> Max (set xs)"
    by simp
  from lo hi show ?thesis ..
qed

lemma adc_range_fits:
  assumes "length xs = 500" and "\<forall>x\<in>set xs. x \<le> ADC_RAW_MAX"
  shows "sum_list xs \<le> INT_MAX"
  using sum_list_upper [of xs 4095] assms by (simp add: INT_MAX_def ADC_RAW_MAX_def)

text \<open>
  C7. For every sequence of 500 raw ADC samples, each non-negative and within the range
  of the ADC, \<open>read_battery_voltage\<close> completes its sampling loop, and the average it
  computes, \<open>raw_sum / 500\<close> in \<open>int\<close> arithmetic, is the sum of the samples divided by
  500 and lies between the minimum and the maximum of the samples, inclusive.
\<close>

theorem raw_average_within_samples:
  assumes "length xs = 500" and "\<forall>x\<in>set xs. 0 \<le> x \<and> x \<le> ADC_RAW_MAX"
  shows "\<exists>raw_avg. raw_average (map Some xs) = Some raw_avg \<and>
           raw_avg = sum_list xs div 500 \<and>
           Min (set xs) \<le> raw_avg \<and> raw_avg \<le> Max (set xs)"
proof -
  from assms have "sum_list xs \<le> INT_MAX"
    by (intro adc_range_fits) simp_all
  with assms have "raw_average (map Some xs) = Some (sum_list xs div 500)"
    by (intro raw_average_no_overflow) simp_all
  with average_between [OF assms(1)] show ?thesis
    by simp
qed

theorem raw_average_within_samples_witness:
  "length (replicate 250 (1000::int) @ replicate 250 3000) = 500 \<and>
   ADC_RAW_MAX = 4095 \<and>
   raw_average (map Some (replicate 250 1000 @ replicate 250 3000)) = Some 2000"
proof -
  let ?xs = "replicate 250 (1000::int) @ replicate 250 3000"
  have l: "length ?xs = 500" by simp
  have r: "\<forall>x\<in>set ?xs. 0 \<le> x \<and> x \<le> ADC_RAW_MAX"
    by (auto simp: ADC_RAW_MAX_def)
  have "sum_list ?xs div 500 = 2000"
    by (simp add: sum_list_replicate)
  then show ?thesis
    using raw_average_within_samples [OF l r] l by (auto simp: ADC_RAW_MAX_def)
qed

section \<open>WiFi retries\<close>

lemma wifi_events_append: "wifi_events (es @ fs) s = wifi_events fs (wifi_events es s)"
  by (induction es arbitrary: s) simp_all

lemma disconnected_retry:
  assumes "0 \<le> wifi_retry_count s" and "wifi_retry_count s < 5"
  shows "wifi_event_handler (WIFI_EVENT WIFI_EVENT_STA_DISCONNECTED) s =
         s\<lparr>wifi_actions := wifi_actions s @ [Esp_wifi_connect],
           wifi_retry_count := wifi_retry_count s + 1\<rparr>"
proof -
  from assms have "int32_wrap (wifi_retry_count s + 1) = wifi_retry_count s + 1"
    by (intro int32_wrap_id) simp_all
  with assms show ?thesis
    by (simp add: WIFI_MAX_RETRY_def)
qed

lemma disconnected_give_up:
  assumes "5 \<le> wifi_retry_count s"
  shows "wifi_event_handler (WIFI_EVENT WIFI_EVENT_STA_DISCONNECTED) s =
         s\<lparr>fail_bit := True, wifi_actions := wifi_actions s @ [Set_WIFI_FAIL_BIT]\<rparr>"
  using assms by (simp add: WIFI_MAX_RETRY_def)

lemma disconnects_retry:
  "0 \<le> wifi_retry_count s \<Longrightarrow> wifi_retry_count s + int n \<le> 5 \<Longrightarrow>
   wifi_events (replicate n (WIFI_EVENT WIFI_EVENT_STA_DISCONNECTED)) s =
     s\<lparr>wifi_actions := wifi_actions s @ replicate n Esp_wifi_connect,
       wifi_retry_count := wifi_retry_count s + int n\<rparr>"
proof (induction n arbitrary: s)
  case 0
  then show ?case by simp
next
  case (Suc n)
  let ?s = "s\<lparr>wifi_actions := wifi_actions s @ [Esp_wifi_connect],
               wifi_retry_count := wifi_retry_count s + 1\<rparr>"
  from Suc.prems have step:
    "wifi_event_handler (WIFI_EVENT WIFI_EVENT_STA_DISCONNECTED) s = ?s"
    by (intro disconnected_retry) simp_all
  from Suc.prems have "0 \<le> wifi_retry_count ?s" "wifi_retry_count ?s + int n \<le> 5"
    by simp_all
  from Suc.IH [OF this] step show ?case
    by (simp add: replicate_app_Cons_same add.assoc)
qed

lemma disconnects_give_up:
  "5 \<le> wifi_retry_count s \<Longrightarrow>
   wifi_actions (wifi_events (replicate m (WIFI_EVENT WIFI_EVENT_STA_DISCONNECTED)) s) =
     wifi_actions s @ replicate m Set_WIFI_FAIL_BIT \<and>
   wifi_retry_count (wifi_events (replicate m (WIFI_EVENT WIFI_EVENT_STA_DISCONNECTED)) s) =
     wifi_retry_count s \<and>
   fail_bit (wifi_events (replicate m (WIFI_EVENT WIFI_EVENT_STA_DISCONNECTED)) s) =
     (fail_bit s \<or> 0 < m)"
proof (induction m arbitrary: s)
  case 0
  then show ?case by simp
next
  case (Suc m)
  let ?s = "s\<lparr>fail_bit := True, wifi_actions := wifi_actions s @ [Set_WIFI_FAIL_BIT]\<rparr>"
  from Suc.prems have step:
    "wifi_event_handler (WIFI_EVENT WIFI_EVENT_STA_DISCONNECTED) s = ?s"
    by (rule disconnected_give_up)
  from Suc.prems have "5 \<le> wifi_retry_count ?s"
    by simp
  from Suc.IH [OF this] step show ?case
    by (simp add: replicate_app_Cons_same)
qed

lemma got_ip_resets:
  "wifi_retry_count (wifi_event_handler (IP_EVENT (IP_EVENT_STA_GOT_IP ip)) s) = 0 \<and>
   connected_bit (wifi_event_handler (IP_EVENT (IP_EVENT_STA_GOT_IP ip)) s)"
  by (simp add: Let_def)

text \<open>
  C4. Starting from retry counter 0: after \<open>N \<le> 5\<close> consecutive disconnect events the
  counter is exactly \<open>N\<close>, each of them having started a reconnect, and a got-IP event
  then resets it to 0. After 6 consecutive disconnect events the handler has reconnected
  five times and raised \<open>WIFI_FAIL_BIT\<close> once, on the sixth; however many disconnect
  events follow, no further reconnect is attempted.
\<close>

theorem wifi_retry_logic:
  assumes "wifi_retry_count s = 0"
  shows "(N \<le> 5 \<longrightarrow>
           wifi_retry_count
             (wifi_events (replicate N (WIFI_EVENT WIFI_EVENT_STA_DISCONNECTED)) s) = int N \<and>
           wifi_actions
             (wifi_events (replicate N (WIFI_EVENT WIFI_EVENT_STA_DISCONNECTED)) s) =
               wifi_actions s @ replicate N Esp_wifi_connect \<and>
           wifi_retry_count
             (wifi_events (replicate N (WIFI_EVENT WIFI_EVENT_STA_DISCONNECTED) @
                           [IP_EVENT (IP_EVENT_STA_GOT_IP ip)]) s) = 0) \<and>
         wifi_actions (wifi_events (replicate 6 (WIFI_EVENT WIFI_EVENT_STA_DISCONNECTED)) s) =
           wifi_actions s @ replicate 5 Esp_wifi_connect @ [Set_WIFI_FAIL_BIT] \<and>
         fail_bit (wifi_events (replicate 6 (WIFI_EVENT WIFI_EVENT_STA_DISCONNECTED)) s) \<and>
         wifi_actions
           (wifi_events (replicate (6 + m) (WIFI_EVENT WIFI_EVENT_STA_DISCONNECTED)) s) =
             wifi_actions s @ replicate 5 Esp_wifi_connect @ replicate (Suc m) Set_WIFI_FAIL_BIT"
proof -
  let ?D = "WIFI_EVENT WIFI_EVENT_STA_DISCONNECTED"
  have retry: "wifi_events (replicate n ?D) s =
      s\<lparr>wifi_actions := wifi_actions s @ replicate n Esp_wifi_connect,
        wifi_retry_count := int n\<rparr>" if "n \<le> 5" for n
    using disconnects_retry [of s n] assms that by simp
  have more: "wifi_events (replicate (5 + k) ?D) s =
      wifi_events (replicate k ?D) (wifi_events (replicate 5 ?D) s)" for k
    by (simp only: replicate_add wifi_events_append)
  have five: "5 \<le> wifi_retry_count (wifi_events (replicate 5 ?D) s)"
    by (simp add: retry)
  have after: "wifi_actions (wifi_events (replicate (5 + k) ?D) s) =
      wifi_actions s @ replicate 5 Esp_wifi_connect @ replicate k Set_WIFI_FAIL_BIT"
    and failed: "fail_bit (wifi_events (replicate (5 + k) ?D) s) = (fail_bit s \<or> 0 < k)" for k
    using disconnects_give_up [OF five, of k] by (simp_all add: more retry)
  have "wifi_retry_count (wifi_events (replicate N ?D @ [IP_EVENT (IP_EVENT_STA_GOT_IP ip)]) s) = 0"
    by (simp only: wifi_events_append wifi_events.simps got_ip_resets)
  moreover have "wifi_actions (wifi_events (replicate 6 ?D) s) =
      wifi_actions s @ replicate 5 Esp_wifi_connect @ [Set_WIFI_FAIL_BIT]"
    using after [of 1] by simp
  moreover have "fail_bit (wifi_events (replicate 6 ?D) s)"
    using failed [of 1] by simp
  moreover have "wifi_actions (wifi_events (replicate (6 + m) ?D) s) =
      wifi_actions s @ replicate 5 Esp_wifi_connect @ replicate (Suc m) Set_WIFI_FAIL_BIT"
    using after [of "Suc m"] by simp
  ultimately show ?thesis
    by (simp add: retry)
qed

theorem wifi_retry_logic_witness:
  "wifi_retry_count wifi_start = 0 \<and> (3::nat) \<le> 5 \<and>
   wifi_retry_count
     (wifi_events (replicate 3 (WIFI_EVENT WIFI_EVENT_STA_DISCONNECTED)) wifi_start) = 3 \<and>
   wifi_retry_count
     (wifi_events (replicate 3 (WIFI_EVENT WIFI_EVENT_STA_DISCONNECTED) @
                   [IP_EVENT (IP_EVENT_STA_GOT_IP 0)]) wifi_start) = 0 \<and>
   wifi_actions (wifi_events (replicate 6 (WIFI_EVENT WIFI_EVENT_STA_DISCONNECTED)) wifi_start) =
     replicate 5 Esp_wifi_connect @ [Set_WIFI_FAIL_BIT]"
proof -
  have h: "wifi_retry_count wifi_start = 0"
    by (simp add: wifi_start_def)
  have "wifi_actions wifi_start = []"
    by (simp add: wifi_start_def)
  with wifi_retry_logic [OF h, of 3 0 0] h show ?thesis
    by simp
qed

section \<open>The reset countdown\<close>

lemma reset_run_append: "reset_run (es @ fs) s = reset_run fs (reset_run es s)"
  by (induction es arbitrary: s) simp_all

lemma reset_step_restarted: "restarted s \<Longrightarrow> reset_step e s = s"
  by (cases e) simp_all

lemma reset_run_restarted: "restarted s \<Longrightarrow> reset_run es s = s"
  by (induction es) (simp_all add: reset_step_restarted)

text \<open>A restart is final: a run that has not restarted at its end never did.\<close>

lemma never_restarted:
  assumes "\<not> restarted (reset_run es s)"
  shows "\<not> restarted (reset_run (take j es) s)"
proof
  assume r: "restarted (reset_run (take j es) s)"
  have "reset_run es s = reset_run (drop j es) (reset_run (take j es) s)"
    by (simp only: reset_run_append [symmetric] append_take_drop_id)
  with r have "reset_run es s = reset_run (take j es) s"
    by (simp add: reset_run_restarted)
  with r assms show False
    by simp
qed

lemma countdown_start:
  assumes "\<not> countdown_active s" and "\<not> restarted s"
  shows "reset_step Delayed_btn_clicked s =
         s\<lparr>countdown_active := True, countdown_value := 5, countdown_timer := True,
           countdown_label := map_option (\<lambda>_. Fmt ''Resetting in %d...'' 5) (countdown_label s),
           delayed_label := map_option (\<lambda>_. Text ''Cancel'') (delayed_label s)\<rparr>"
  using assms by (cases "countdown_label s"; cases "delayed_label s")
    (simp_all add: delayed_reset_btn_cb_def Let_def)

lemma countdown_cancel:
  assumes "countdown_active s" and "\<not> restarted s"
  shows "reset_step Delayed_btn_clicked s =
         s\<lparr>countdown_active := False, countdown_value := 5,
           countdown_label := map_option (\<lambda>_. Text ''Countdown cancelled'') (countdown_label s),
           delayed_label := map_option (\<lambda>_. Text ''Reset in 5s'') (delayed_label s)\<rparr>"
  using assms by (cases "countdown_label s"; cases "delayed_label s")
    (simp_all add: delayed_reset_btn_cb_def Let_def)

lemma countdown_tick:
  assumes "countdown_active s" and "\<not> restarted s" and "countdown_timer s"
    and "1 < countdown_value s" and "countdown_value s \<le> 5"
  shows "reset_step Timer_period s =
         s\<lparr>countdown_value := countdown_value s - 1,
           countdown_label :=
             map_option (\<lambda>_. Fmt ''Resetting in %d...'' (countdown_value s - 1))
               (countdown_label s)\<rparr>"
proof -
  from assms have "int32_wrap (countdown_value s - 1) = countdown_value s - 1"
    by (intro int32_wrap_id) simp_all
  with assms show ?thesis
    by (cases "countdown_label s") (simp_all add: countdown_timer_cb_def Let_def)
qed

lemma countdown_ticks:
  "countdown_active s \<Longrightarrow> \<not> restarted s \<Longrightarrow> countdown_timer s \<Longrightarrow>
   int k < countdown_value s \<Longrightarrow> countdown_value s \<le> 5 \<Longrightarrow>
   countdown_active (reset_run (replicate k Timer_period) s) \<and>
   \<not> restarted (reset_run (replicate k Timer_period) s) \<and>
   countdown_value (reset_run (replicate k Timer_period) s) = countdown_value s - int k \<and>
   (countdown_label (reset_run (replicate k Timer_period) s) = None) = (countdown_label s = None) \<and>
   delayed_label (reset_run (replicate k Timer_period) s) = delayed_label s"
proof (induction k arbitrary: s)
  case 0
  then show ?case by simp
next
  case (Suc k)
  let ?s = "s\<lparr>countdown_value := countdown_value s - 1,
               countdown_label :=
                 map_option (\<lambda>_. Fmt ''Resetting in %d...'' (countdown_value s - 1))
                   (countdown_label s)\<rparr>"
  from Suc.prems have step: "reset_step Timer_period s = ?s"
    by (intro countdown_tick) simp_all
  from Suc.prems have "countdown_active ?s" "\<not> restarted ?s" "countdown_timer ?s"
    "int k < countdown_value ?s" "countdown_value ?s \<le> 5"
    by simp_all
  from Suc.IH [OF this] step show ?case
    by simp
qed

lemma idle_ticks:
  "\<not> countdown_active s \<Longrightarrow> \<not> restarted s \<Longrightarrow>
   reset_run (replicate n Timer_period) s =
     (if 0 < n then s\<lparr>countdown_timer := False\<rparr> else s)"
proof (induction n arbitrary: s)
  case 0
  then show ?case by simp
next
  case (Suc n)
  from Suc.prems have step:
    "reset_step Timer_period s = (if countdown_timer s then s\<lparr>countdown_timer := False\<rparr> else s)"
    by (simp add: countdown_timer_cb_def)
  show ?case
  proof (cases "countdown_timer s")
    case True
    with Suc.IH [of "s\<lparr>countdown_timer := False\<rparr>"] Suc.prems step show ?thesis
      by simp
  next
    case False
    then have "s\<lparr>countdown_timer := False\<rparr> = s"
      by simp
    with Suc.IH [of s] Suc.prems step False show ?thesis
      by simp
  qed
qed

text \<open>
  C9, as the code has it. From an idle state with the UI created, let the delayed-reset
  button be clicked (the countdown starts), fewer than five timer periods elapse, the
  button be clicked again (the cancel branch), and any number of timer periods follow.
  Then \<open>esp_restart\<close> is not called, at the end or at any point of the run; the countdown
  is inactive with its value back at 5; the button reads ``Reset in 5s'' again; the
  countdown label reads ``Countdown cancelled''; and the first timer period after the
  cancellation deletes the timer.
\<close>

theorem cancelled_countdown_never_resets:
  assumes "\<not> countdown_active s" and "\<not> restarted s"
    and "countdown_label s \<noteq> None" and "delayed_label s \<noteq> None" and "k < 5"
  shows "\<not> restarted (reset_run (Delayed_btn_clicked # replicate k Timer_period @
                                  Delayed_btn_clicked # replicate n Timer_period) s) \<and>
         \<not> restarted (reset_run (take j (Delayed_btn_clicked # replicate k Timer_period @
                                          Delayed_btn_clicked # replicate n Timer_period)) s) \<and>
         \<not> countdown_active (reset_run (Delayed_btn_clicked # replicate k Timer_period @
                                         Delayed_btn_clicked # replicate n Timer_period) s) \<and>
         countdown_value (reset_run (Delayed_btn_clicked # replicate k Timer_period @
                                     Delayed_btn_clicked # replicate n Timer_period) s) = 5 \<and>
         delayed_label (reset_run (Delayed_btn_clicked # replicate k Timer_period @
                                   Delayed_btn_clicked # replicate n Timer_period) s) =
           Some (Text ''Reset in 5s'') \<and>
         countdown_label (reset_run (Delayed_btn_clicked # replicate k Timer_period @
                                     Delayed_btn_clicked # replicate n Timer_period) s) =
           Some (Text ''Countdown cancelled'') \<and>
         (0 < n \<longrightarrow>
           \<not> countdown_timer (reset_run (Delayed_btn_clicked # replicate k Timer_period @
                                         Delayed_btn_clicked # replicate n Timer_period) s))"
proof -
  let ?es = "Delayed_btn_clicked # replicate k Timer_period @
             Delayed_btn_clicked # replicate n Timer_period"
  define s1 where "s1 = reset_step Delayed_btn_clicked s"
  define s2 where "s2 = reset_run (replicate k Timer_period) s1"
  define s3 where "s3 = reset_step Delayed_btn_clicked s2"
  define s4 where "s4 = reset_run (replicate n Timer_period) s3"
  have run: "reset_run ?es s = s4"
    by (simp add: s1_def s2_def s3_def s4_def reset_run_append)
  have "s1 = s\<lparr>countdown_active := True, countdown_value := 5, countdown_timer := True,
      countdown_label := map_option (\<lambda>_. Fmt ''Resetting in %d...'' 5) (countdown_label s),
      delayed_label := map_option (\<lambda>_. Text ''Cancel'') (delayed_label s)\<rparr>"
    unfolding s1_def using assms(1,2) by (rule countdown_start)
  with assms have 1: "countdown_active s1" "\<not> restarted s1" "countdown_timer s1"
    "countdown_value s1 = 5" "countdown_label s1 \<noteq> None" "delayed_label s1 \<noteq> None"
    by auto
  from 1 assms(5) have "int k < countdown_value s1" "countdown_value s1 \<le> 5"
    by simp_all
  from countdown_ticks [OF 1(1-3) this] 1 have 2: "countdown_active s2" "\<not> restarted s2"
    "countdown_label s2 \<noteq> None" "delayed_label s2 \<noteq> None"
    by (simp_all add: s2_def)
  have "s3 = s2\<lparr>countdown_active := False, countdown_value := 5,
      countdown_label := map_option (\<lambda>_. Text ''Countdown cancelled'') (countdown_label s2),
      delayed_label := map_option (\<lambda>_. Text ''Reset in 5s'') (delayed_label s2)\<rparr>"
    unfolding s3_def using 2(1,2) by (rule countdown_cancel)
  with 2 have 3: "\<not> countdown_active s3" "\<not> restarted s3" "countdown_value s3 = 5"
    "countdown_label s3 = Some (Text ''Countdown cancelled'')"
    "delayed_label s3 = Some (Text ''Reset in 5s'')"
    by auto
  from idle_ticks [OF 3(1,2), of n] have 4: "s4 = (if 0 < n then s3\<lparr>countdown_timer := False\<rparr> else s3)"
    by (simp add: s4_def)
  from 3 4 have fin: "\<not> restarted s4" "\<not> countdown_active s4" "countdown_value s4 = 5"
    "countdown_label s4 = Some (Text ''Countdown cancelled'')"
    "delayed_label s4 = Some (Text ''Reset in 5s'')" "0 < n \<longrightarrow> \<not> countdown_timer s4"
    by simp_all
  from fin(1) have "\<not> restarted (reset_run ?es s)"
    unfolding run .
  then have "\<not> restarted (reset_run (take j ?es) s)"
    by (rule never_restarted)
  with fin show ?thesis
    unfolding run by blast
qed

theorem cancelled_countdown_never_resets_witness:
  "\<not> countdown_active reset_idle \<and> \<not> restarted reset_idle \<and>
   countdown_label reset_idle \<noteq> None \<and> delayed_label reset_idle \<noteq> None \<and> (2::nat) < 5 \<and>
   \<not> restarted (reset_run (Delayed_btn_clicked # replicate 2 Timer_period @
                            Delayed_btn_clicked # replicate 3 Timer_period) reset_idle) \<and>
   delayed_label (reset_run (Delayed_btn_clicked # replicate 2 Timer_period @
                             Delayed_btn_clicked # replicate 3 Timer_period) reset_idle) =
     Some (Text ''Reset in 5s'')"
proof -
  have h: "\<not> countdown_active reset_idle" "\<not> restarted reset_idle"
    "countdown_label reset_idle \<noteq> None" "delayed_label reset_idle \<noteq> None" "(2::nat) < 5"
    by (simp_all add: reset_idle_def)
  from cancelled_countdown_never_resets [OF h, of 3 0] h show ?thesis
    by simp
qed

text \<open>
  C9 as stated has the UI return to its idle prompt. The prompt of the idle UI is
  ``Press a button to reset''; after a cancellation the label reads
  ``Countdown cancelled'' instead.
\<close>

theorem cancelled_countdown_prompt_counterexample:
  "countdown_label reset_idle = Some (Text ''Press a button to reset'') \<and>
   countdown_label
     (reset_run [Delayed_btn_clicked, Timer_period, Delayed_btn_clicked] reset_idle) =
       Some (Text ''Countdown cancelled'')"
  by (simp add: reset_idle_def delayed_reset_btn_cb_def countdown_timer_cb_def int32_wrap_def)

section \<open>The SD card power rail\<close>

lemma rails_held_snoc: "rails_held (calls @ [c]) = ldo_effect (rails_held calls) c"
  by (simp add: rails_held_def)

lemma sd_mount_ldo_failed:
  assumes "fst (ldo_new drv) \<noteq> ESP_OK"
  shows "sd_mount drv s =
         (fst (ldo_new drv),
          s\<lparr>drv_calls := drv_calls s @
               [Sd_pwr_ctrl_new_on_chip_ldo (fst (ldo_new drv)) (snd (ldo_new drv))]\<rparr>)"
  using assms by (simp add: sd_mount_def Let_def)

lemma sd_mount_fat_failed:
  assumes "fst (ldo_new drv) = ESP_OK" and "fst (fat_mount drv) \<noteq> ESP_OK"
  shows "sd_mount drv s =
         (fst (fat_mount drv),
          s\<lparr>drv_calls := drv_calls s @
               [Sd_pwr_ctrl_new_on_chip_ldo ESP_OK (snd (ldo_new drv)),
                Esp_vfs_fat_sdmmc_mount (Some (snd (ldo_new drv))) (fst (fat_mount drv)),
                Sd_pwr_ctrl_del_on_chip_ldo (Some (snd (ldo_new drv)))],
            sd_pwr_ctrl_handle := None\<rparr>)"
  using assms by (simp add: sd_mount_def Let_def)

lemma sd_mount_ok:
  assumes "fst (ldo_new drv) = ESP_OK" and "fst (fat_mount drv) = ESP_OK"
  shows "sd_mount drv s =
         (ESP_OK,
          s\<lparr>drv_calls := drv_calls s @
               [Sd_pwr_ctrl_new_on_chip_ldo ESP_OK (snd (ldo_new drv)),
                Esp_vfs_fat_sdmmc_mount (Some (snd (ldo_new drv))) ESP_OK],
            sd_pwr_ctrl_handle := Some (snd (ldo_new drv)),
            sd_card := Some (snd (fat_mount drv))\<rparr>)"
  using assms by (simp add: sd_mount_def Let_def)

lemma sd_mount_cases:
  obtains (ldo_failed) "fst (ldo_new drv) \<noteq> ESP_OK"
  | (fat_failed) "fst (ldo_new drv) = ESP_OK" "fst (fat_mount drv) \<noteq> ESP_OK"
  | (ok) "fst (ldo_new drv) = ESP_OK" "fst (fat_mount drv) = ESP_OK"
  by blast

lemma sd_mount_ok_iff:
  "fst (sd_mount drv s) = ESP_OK \<longleftrightarrow> fst (ldo_new drv) = ESP_OK \<and> fst (fat_mount drv) = ESP_OK"
  by (cases drv rule: sd_mount_cases)
    (simp_all add: sd_mount_ldo_failed sd_mount_fat_failed sd_mount_ok)

lemma sd_unmount_eq:
  "sd_unmount drv s =
     (fat_unmount drv,
      s\<lparr>drv_calls := drv_calls s @ Esp_vfs_fat_sdcard_unmount (sd_card s) (fat_unmount drv) #
           (case sd_pwr_ctrl_handle s of None \<Rightarrow> []
            | Some h \<Rightarrow> [Sd_pwr_ctrl_del_on_chip_ldo (Some h)]),
        sd_card := None, sd_pwr_ctrl_handle := None\<rparr>)"
  by (cases "sd_pwr_ctrl_handle s") (simp_all add: sd_unmount_def Let_def)

lemma rails_after_sd_mount:
  "rails_held (drv_calls (snd (sd_mount drv s))) =
     (if fst (sd_mount drv s) = ESP_OK then snd (ldo_new drv) # rails_held (drv_calls s)
      else rails_held (drv_calls s))"
proof (cases drv rule: sd_mount_cases)
  case ldo_failed
  then show ?thesis
    by (simp add: sd_mount_ldo_failed rails_held_snoc)
next
  case fat_failed
  then show ?thesis
    by (simp add: sd_mount_fat_failed rails_held_def)
next
  case ok
  then show ?thesis
    by (simp add: sd_mount_ok rails_held_def)
qed

lemma rails_after_sd_unmount:
  "rails_held (drv_calls (snd (sd_unmount drv s))) =
     (case sd_pwr_ctrl_handle s of None \<Rightarrow> rails_held (drv_calls s)
      | Some h \<Rightarrow> remove1 h (rails_held (drv_calls s)))"
  by (cases "sd_pwr_ctrl_handle s") (simp_all add: sd_unmount_eq rails_held_def)

lemma sd_inv_start: "sd_inv sd_start"
  by (simp add: sd_inv_def sd_start_def rails_held_def)

lemma sd_inv_click:
  assumes "sd_inv s"
  shows "sd_inv (mount_btn_click_cb drv s)"
proof (cases "sd_mounted s")
  case True
  with assms rails_after_sd_unmount [of drv s] show ?thesis
    by (cases "sd_pwr_ctrl_handle s")
      (auto simp: sd_inv_def mount_btn_click_cb_def sd_unmount_eq split: prod.splits)
next
  case False
  let ?s = "s\<lparr>status_label := Text ''Mounting...''\<rparr>"
  from False assms have h: "sd_pwr_ctrl_handle ?s = None" "sd_card ?s = None"
    "rails_held (drv_calls ?s) = []" "\<not> sd_mounted ?s"
    by (simp_all add: sd_inv_def)
  show ?thesis
  proof (cases drv rule: sd_mount_cases)
    case ldo_failed
    with False h show ?thesis
      by (simp add: sd_inv_def mount_btn_click_cb_def sd_mount_ldo_failed rails_held_snoc)
  next
    case fat_failed
    with False h show ?thesis
      by (simp add: sd_inv_def mount_btn_click_cb_def sd_mount_fat_failed rails_held_def)
  next
    case ok
    with False h show ?thesis
      by (simp add: sd_inv_def mount_btn_click_cb_def sd_mount_ok rails_held_def)
  qed
qed

lemma sd_inv_clicks: "sd_inv s \<Longrightarrow> sd_inv (mount_btn_clicks drvs s)"
  by (induction drvs arbitrary: s) (simp_all add: sd_inv_click)

lemma sd_inv_reachable: "sd_inv (mount_btn_clicks drvs sd_start)"
  by (rule sd_inv_clicks) (rule sd_inv_start)

lemma mounted_has_rail_click:
  assumes "sd_mounted s \<longrightarrow> sd_pwr_ctrl_handle s \<noteq> None" and "fat_unmount drv = ESP_OK"
  shows "sd_mounted (mount_btn_click_cb drv s) \<longrightarrow>
         sd_pwr_ctrl_handle (mount_btn_click_cb drv s) \<noteq> None"
proof (cases "sd_mounted s")
  case True
  with assms show ?thesis
    by (simp add: mount_btn_click_cb_def sd_unmount_eq)
next
  case False
  then show ?thesis
    by (cases drv rule: sd_mount_cases)
      (simp_all add: mount_btn_click_cb_def sd_mount_ldo_failed sd_mount_fat_failed sd_mount_ok)
qed

lemma mounted_has_rail_clicks:
  "sd_mounted s \<longrightarrow> sd_pwr_ctrl_handle s \<noteq> None \<Longrightarrow>
   \<forall>drv\<in>set drvs. fat_unmount drv = ESP_OK \<Longrightarrow>
   sd_mounted (mount_btn_clicks drvs s) \<longrightarrow> sd_pwr_ctrl_handle (mount_btn_clicks drvs s) \<noteq> None"
proof (induction drvs arbitrary: s)
  case Nil
  then show ?case by simp
next
  case (Cons drv drvs)
  from Cons.prems have "sd_mounted (mount_btn_click_cb drv s) \<longrightarrow>
      sd_pwr_ctrl_handle (mount_btn_click_cb drv s) \<noteq> None"
    by (intro mounted_has_rail_click) simp_all
  from Cons.IH [OF this] Cons.prems(2) show ?case
    by simp
qed

text \<open>
  C1, as the code has it. In every state reached from the start by clicks on the mount
  button, whatever the drivers answer: while the card is unmounted the power-rail handle
  is null, and the only rail the LDO driver has out is the one the handle names. If no
  unmount call of the run has failed, the handle is non-null exactly when the card is
  mounted.
\<close>

theorem rail_handle_follows_mount:
  "(\<not> sd_mounted (mount_btn_clicks drvs sd_start) \<longrightarrow>
      sd_pwr_ctrl_handle (mount_btn_clicks drvs sd_start) = None) \<and>
   rails_held (drv_calls (mount_btn_clicks drvs sd_start)) =
     (case sd_pwr_ctrl_handle (mount_btn_clicks drvs sd_start) of
        None \<Rightarrow> [] | Some h \<Rightarrow> [h]) \<and>
   ((\<forall>drv\<in>set drvs. fat_unmount drv = ESP_OK) \<longrightarrow>
      (sd_pwr_ctrl_handle (mount_btn_clicks drvs sd_start) \<noteq> None \<longleftrightarrow>
       sd_mounted (mount_btn_clicks drvs sd_start)))"
proof -
  let ?s = "mount_btn_clicks drvs sd_start"
  have inv: "sd_inv ?s"
    by (rule sd_inv_reachable)
  have "sd_mounted ?s \<longrightarrow> sd_pwr_ctrl_handle ?s \<noteq> None"
    if "\<forall>drv\<in>set drvs. fat_unmount drv = ESP_OK"
    using that by (intro mounted_has_rail_clicks) (simp_all add: sd_start_def)
  moreover from inv have "\<not> sd_mounted ?s \<longrightarrow> sd_pwr_ctrl_handle ?s = None"
    and "rails_held (drv_calls ?s) =
      (case sd_pwr_ctrl_handle ?s of None \<Rightarrow> [] | Some h \<Rightarrow> [h])"
    by (simp_all add: sd_inv_def)
  ultimately show ?thesis
    by auto
qed

theorem rail_handle_follows_mount_witness:
  "fat_unmount \<lparr>ldo_new = (0, 1), fat_mount = (0, 7), fat_unmount = 0\<rparr> = ESP_OK \<and>
   sd_mounted (mount_btn_clicks
     [\<lparr>ldo_new = (0, 1), fat_mount = (0, 7), fat_unmount = 0\<rparr>] sd_start) \<and>
   sd_pwr_ctrl_handle (mount_btn_clicks
     [\<lparr>ldo_new = (0, 1), fat_mount = (0, 7), fat_unmount = 0\<rparr>] sd_start) = Some 1 \<and>
   \<not> sd_mounted (mount_btn_clicks
     [\<lparr>ldo_new = (0, 1), fat_mount = (0, 7), fat_unmount = 0\<rparr>,
      \<lparr>ldo_new = (0, 1), fat_mount = (0, 7), fat_unmount = 0\<rparr>] sd_start) \<and>
   sd_pwr_ctrl_handle (mount_btn_clicks
     [\<lparr>ldo_new = (0, 1), fat_mount = (0, 7), fat_unmount = 0\<rparr>,
      \<lparr>ldo_new = (0, 1), fat_mount = (0, 7), fat_unmount = 0\<rparr>] sd_start) = None"
proof -
  let ?d = "\<lparr>ldo_new = (0, 1), fat_mount = (0, 7), fat_unmount = 0\<rparr>"
  have m: "sd_mounted (mount_btn_clicks [?d] sd_start)"
    by (simp add: mount_btn_click_cb_def sd_mount_def sd_start_def ESP_OK_def)
  have h: "sd_pwr_ctrl_handle (mount_btn_clicks [?d] sd_start) = Some 1"
    by (simp add: mount_btn_click_cb_def sd_mount_def sd_start_def ESP_OK_def)
  have u: "\<not> sd_mounted (mount_btn_clicks [?d, ?d] sd_start)"
    by (simp add: mount_btn_click_cb_def sd_mount_def sd_unmount_def sd_start_def ESP_OK_def)
  from m h u rail_handle_follows_mount [of "[?d]"] rail_handle_follows_mount [of "[?d, ?d]"]
  show ?thesis
    by (simp add: ESP_OK_def)
qed

text \<open>
  C1 as stated, the handle non-null if and only if mounted in every reachable state,
  fails after an unmount call that fails: \<open>sd_unmount\<close> releases the rail and clears the
  handle whatever \<open>esp_vfs_fat_sdcard_unmount\<close> returns, and the callback then leaves
  \<open>sd_mounted\<close> set. Here the second click unmounts and the driver answers
  \<open>ESP_ERR_INVALID_STATE\<close> (259).
\<close>

theorem mounted_without_rail_counterexample:
  "sd_mounted (mount_btn_clicks
     [\<lparr>ldo_new = (0, 1), fat_mount = (0, 7), fat_unmount = 0\<rparr>,
      \<lparr>ldo_new = (0, 1), fat_mount = (0, 7), fat_unmount = 259\<rparr>] sd_start) \<and>
   sd_pwr_ctrl_handle (mount_btn_clicks
     [\<lparr>ldo_new = (0, 1), fat_mount = (0, 7), fat_unmount = 0\<rparr>,
      \<lparr>ldo_new = (0, 1), fat_mount = (0, 7), fat_unmount = 259\<rparr>] sd_start) = None"
  by (simp add: mount_btn_click_cb_def sd_mount_def sd_unmount_def sd_start_def ESP_OK_def)

text \<open>
  C2. Let \<open>sd_mount\<close> run in a state the program calls it in: one reached by clicks on the
  mount button in which the card is unmounted. If creating the power-rail control fails,
  \<open>sd_mount\<close> returns that error and has done nothing but that one driver call: no
  filesystem mount is attempted and the state is otherwise unchanged. If the filesystem
  mount then fails, it deletes the rail just created, clears the handle and returns the
  mount error. After any failing \<open>sd_mount\<close> the handle is null and the LDO driver has no
  rail out.
\<close>

theorem sd_mount_failure_leaves_no_rail:
  assumes "s = mount_btn_clicks drvs sd_start" and "\<not> sd_mounted s"
  shows "(fst (ldo_new drv) \<noteq> ESP_OK \<longrightarrow>
            sd_mount drv s =
              (fst (ldo_new drv),
               s\<lparr>drv_calls := drv_calls s @
                    [Sd_pwr_ctrl_new_on_chip_ldo (fst (ldo_new drv)) (snd (ldo_new drv))]\<rparr>)) \<and>
         (fst (ldo_new drv) = ESP_OK \<and> fst (fat_mount drv) \<noteq> ESP_OK \<longrightarrow>
            sd_mount drv s =
              (fst (fat_mount drv),
               s\<lparr>drv_calls := drv_calls s @
                    [Sd_pwr_ctrl_new_on_chip_ldo ESP_OK (snd (ldo_new drv)),
                     Esp_vfs_fat_sdmmc_mount (Some (snd (ldo_new drv))) (fst (fat_mount drv)),
                     Sd_pwr_ctrl_del_on_chip_ldo (Some (snd (ldo_new drv)))],
                 sd_pwr_ctrl_handle := None\<rparr>)) \<and>
         (fst (sd_mount drv s) \<noteq> ESP_OK \<longrightarrow>
            sd_pwr_ctrl_handle (snd (sd_mount drv s)) = None \<and>
            rails_held (drv_calls (snd (sd_mount drv s))) = [])"
proof -
  from assms have "sd_inv s"
    by (simp add: sd_inv_reachable)
  with assms(2) have null: "sd_pwr_ctrl_handle s = None" and none: "rails_held (drv_calls s) = []"
    by (simp_all add: sd_inv_def)
  have "sd_pwr_ctrl_handle (snd (sd_mount drv s)) = None"
    if "fst (sd_mount drv s) \<noteq> ESP_OK"
    using that null
    by (cases drv rule: sd_mount_cases)
      (simp_all add: sd_mount_ldo_failed sd_mount_fat_failed sd_mount_ok)
  moreover have "rails_held (drv_calls (snd (sd_mount drv s))) = []"
    if "fst (sd_mount drv s) \<noteq> ESP_OK"
    using that none by (simp add: rails_after_sd_mount)
  ultimately show ?thesis
    using sd_mount_ldo_failed [of drv s] sd_mount_fat_failed [of drv s] by blast
qed

theorem sd_mount_failure_leaves_no_rail_witness:
  "sd_start = mount_btn_clicks [] sd_start \<and> \<not> sd_mounted sd_start \<and>
   sd_mount \<lparr>ldo_new = (257, 0), fat_mount = (0, 7), fat_unmount = 0\<rparr> sd_start =
     (257, sd_start\<lparr>drv_calls := [Sd_pwr_ctrl_new_on_chip_ldo 257 0]\<rparr>) \<and>
   sd_mount \<lparr>ldo_new = (0, 1), fat_mount = (263, 0), fat_unmount = 0\<rparr> sd_start =
     (263, sd_start\<lparr>drv_calls :=
             [Sd_pwr_ctrl_new_on_chip_ldo ESP_OK 1, Esp_vfs_fat_sdmmc_mount (Some 1) 263,
              Sd_pwr_ctrl_del_on_chip_ldo (Some 1)]\<rparr>) \<and>
   sd_pwr_ctrl_handle
     (snd (sd_mount \<lparr>ldo_new = (0, 1), fat_mount = (263, 0), fat_unmount = 0\<rparr> sd_start)) = None"
proof -
  have a: "sd_start = mount_btn_clicks [] sd_start" and b: "\<not> sd_mounted sd_start"
    by (simp_all add: sd_start_def)
  have c: "drv_calls sd_start = []" "sd_pwr_ctrl_handle sd_start = None"
    by (simp_all add: sd_start_def)
  from sd_mount_failure_leaves_no_rail [OF a b, of "\<lparr>ldo_new = (257, 0), fat_mount = (0, 7), fat_unmount = 0\<rparr>"]
    sd_mount_failure_leaves_no_rail [OF a b, of "\<lparr>ldo_new = (0, 1), fat_mount = (263, 0), fat_unmount = 0\<rparr>"]
    a b c
  show ?thesis
    by (simp add: ESP_OK_def sd_start_def)
qed

text \<open>
  C3. Let \<open>sd_mount\<close> succeed in a state the program calls it in: it has created one
  rail and mounted the card with it. Let \<open>sd_unmount\<close> run afterwards, whatever the
  unmount driver call returns. Then \<open>sd_unmount\<close> makes exactly two driver calls, the
  unmount of that card and the deletion of that rail, returns the unmount's code, and
  leaves the power-rail handle and the card pointer null; the LDO driver, which had the
  one rail out, has none out. If the drivers succeed whenever no rail is out, a further
  \<open>sd_mount\<close> succeeds, creating and holding exactly one rail again: the round trip
  repeats.
\<close>

theorem mount_unmount_round_trip:
  assumes "s = mount_btn_clicks drvs sd_start" and "\<not> sd_mounted s"
    and "fst (sd_mount drv1 s) = ESP_OK"
    and "s1 = snd (sd_mount drv1 s)" and "s2 = snd (sd_unmount drv2 s1)"
    and "rails_held (drv_calls s2) = [] \<longrightarrow>
           fst (ldo_new drv3) = ESP_OK \<and> fst (fat_mount drv3) = ESP_OK"
  shows "s1 = s\<lparr>drv_calls := drv_calls s @
                  [Sd_pwr_ctrl_new_on_chip_ldo ESP_OK (snd (ldo_new drv1)),
                   Esp_vfs_fat_sdmmc_mount (Some (snd (ldo_new drv1))) ESP_OK],
                sd_pwr_ctrl_handle := Some (snd (ldo_new drv1)),
                sd_card := Some (snd (fat_mount drv1))\<rparr> \<and>
         rails_held (drv_calls s1) = [snd (ldo_new drv1)] \<and>
         sd_unmount drv2 s1 =
           (fat_unmount drv2,
            s1\<lparr>drv_calls := drv_calls s1 @
                   [Esp_vfs_fat_sdcard_unmount (Some (snd (fat_mount drv1))) (fat_unmount drv2),
                    Sd_pwr_ctrl_del_on_chip_ldo (Some (snd (ldo_new drv1)))],
                sd_card := None, sd_pwr_ctrl_handle := None\<rparr>) \<and>
         sd_pwr_ctrl_handle s2 = None \<and> sd_card s2 = None \<and>
         rails_held (drv_calls s2) = [] \<and>
         fst (sd_mount drv3 s2) = ESP_OK \<and>
         sd_pwr_ctrl_handle (snd (sd_mount drv3 s2)) = Some (snd (ldo_new drv3)) \<and>
         drv_calls (snd (sd_mount drv3 s2)) =
           drv_calls s2 @
             [Sd_pwr_ctrl_new_on_chip_ldo ESP_OK (snd (ldo_new drv3)),
              Esp_vfs_fat_sdmmc_mount (Some (snd (ldo_new drv3))) ESP_OK] \<and>
         rails_held (drv_calls (snd (sd_mount drv3 s2))) = [snd (ldo_new drv3)]"
proof -
  from assms(1) have "sd_inv s"
    by (simp add: sd_inv_reachable)
  with assms(2) have none: "rails_held (drv_calls s) = []"
    by (simp add: sd_inv_def)
  from assms(3) have ok1: "fst (ldo_new drv1) = ESP_OK" "fst (fat_mount drv1) = ESP_OK"
    by (simp_all add: sd_mount_ok_iff)
  then have e1: "s1 = s\<lparr>drv_calls := drv_calls s @
      [Sd_pwr_ctrl_new_on_chip_ldo ESP_OK (snd (ldo_new drv1)),
       Esp_vfs_fat_sdmmc_mount (Some (snd (ldo_new drv1))) ESP_OK],
      sd_pwr_ctrl_handle := Some (snd (ldo_new drv1)),
      sd_card := Some (snd (fat_mount drv1))\<rparr>"
    by (simp add: assms(4) sd_mount_ok)
  then have h1: "sd_pwr_ctrl_handle s1 = Some (snd (ldo_new drv1))"
    and c1: "sd_card s1 = Some (snd (fat_mount drv1))"
    by simp_all
  from assms(3) none have r1: "rails_held (drv_calls s1) = [snd (ldo_new drv1)]"
    by (simp add: assms(4) rails_after_sd_mount)
  from h1 c1 have u: "sd_unmount drv2 s1 =
      (fat_unmount drv2,
       s1\<lparr>drv_calls := drv_calls s1 @
              [Esp_vfs_fat_sdcard_unmount (Some (snd (fat_mount drv1))) (fat_unmount drv2),
               Sd_pwr_ctrl_del_on_chip_ldo (Some (snd (ldo_new drv1)))],
           sd_card := None, sd_pwr_ctrl_handle := None\<rparr>)"
    by (simp add: sd_unmount_eq)
  have null2: "sd_pwr_ctrl_handle s2 = None" "sd_card s2 = None"
    by (simp_all add: assms(5) sd_unmount_eq)
  from h1 r1 have r2: "rails_held (drv_calls s2) = []"
    by (simp add: assms(5) rails_after_sd_unmount)
  with assms(6) have ok3: "fst (ldo_new drv3) = ESP_OK" "fst (fat_mount drv3) = ESP_OK"
    by simp_all
  then have m3: "fst (sd_mount drv3 s2) = ESP_OK"
    by (simp add: sd_mount_ok_iff)
  from ok3 have h3: "sd_pwr_ctrl_handle (snd (sd_mount drv3 s2)) = Some (snd (ldo_new drv3))"
    and c3: "drv_calls (snd (sd_mount drv3 s2)) =
      drv_calls s2 @
        [Sd_pwr_ctrl_new_on_chip_ldo ESP_OK (snd (ldo_new drv3)),
         Esp_vfs_fat_sdmmc_mount (Some (snd (ldo_new drv3))) ESP_OK]"
    by (simp_all add: sd_mount_ok)
  from m3 r2 have r3: "rails_held (drv_calls (snd (sd_mount drv3 s2))) = [snd (ldo_new drv3)]"
    by (simp add: rails_after_sd_mount)
  from e1 r1 u null2 r2 m3 h3 c3 r3 show ?thesis
    by (intro conjI)
qed

theorem mount_unmount_round_trip_witness:
  "sd_start = mount_btn_clicks [] sd_start \<and> \<not> sd_mounted sd_start \<and>
   fst (sd_mount \<lparr>ldo_new = (0, 3), fat_mount = (0, 7), fat_unmount = 0\<rparr> sd_start) = ESP_OK \<and>
   drv_calls
     (snd (sd_unmount \<lparr>ldo_new = (0, 3), fat_mount = (0, 7), fat_unmount = 0\<rparr>
        (snd (sd_mount \<lparr>ldo_new = (0, 3), fat_mount = (0, 7), fat_unmount = 0\<rparr> sd_start)))) =
     [Sd_pwr_ctrl_new_on_chip_ldo ESP_OK 3, Esp_vfs_fat_sdmmc_mount (Some 3) ESP_OK,
      Esp_vfs_fat_sdcard_unmount (Some 7) 0, Sd_pwr_ctrl_del_on_chip_ldo (Some 3)] \<and>
   sd_pwr_ctrl_handle
     (snd (sd_unmount \<lparr>ldo_new = (0, 3), fat_mount = (0, 7), fat_unmount = 0\<rparr>
        (snd (sd_mount \<lparr>ldo_new = (0, 3), fat_mount = (0, 7), fat_unmount = 0\<rparr> sd_start)))) =
     None \<and>
   fst (sd_mount \<lparr>ldo_new = (0, 4), fat_mount = (0, 8), fat_unmount = 0\<rparr>
     (snd (sd_unmount \<lparr>ldo_new = (0, 3), fat_mount = (0, 7), fat_unmount = 0\<rparr>
        (snd (sd_mount \<lparr>ldo_new = (0, 3), fat_mount = (0, 7), fat_unmount = 0\<rparr> sd_start))))) =
     ESP_OK"
proof -
  let ?d = "\<lparr>ldo_new = (0, 3), fat_mount = (0, 7), fat_unmount = 0\<rparr>"
  let ?e = "\<lparr>ldo_new = (0, 4), fat_mount = (0, 8), fat_unmount = 0\<rparr>"
  have a: "sd_start = mount_btn_clicks [] sd_start" and b: "\<not> sd_mounted sd_start"
    by (simp_all add: sd_start_def)
  have c: "fst (sd_mount ?d sd_start) = ESP_OK"
    by (simp add: sd_mount_def ESP_OK_def)
  have d: "rails_held (drv_calls (snd (sd_unmount ?d (snd (sd_mount ?d sd_start))))) = [] \<longrightarrow>
      fst (ldo_new ?e) = ESP_OK \<and> fst (fat_mount ?e) = ESP_OK"
    by (simp add: ESP_OK_def)
  have e: "drv_calls sd_start = []"
    by (simp add: sd_start_def)
  note t = mount_unmount_round_trip [OF a b c refl refl d]
  note mounted = t [THEN conjunct1]
  note unmounted = t [THEN conjunct2, THEN conjunct2, THEN conjunct1]
  have s2: "drv_calls (snd (sd_unmount ?d (snd (sd_mount ?d sd_start)))) =
      [Sd_pwr_ctrl_new_on_chip_ldo ESP_OK 3, Esp_vfs_fat_sdmmc_mount (Some 3) ESP_OK,
       Esp_vfs_fat_sdcard_unmount (Some 7) 0, Sd_pwr_ctrl_del_on_chip_ldo (Some 3)]"
    by (simp add: unmounted) (simp add: mounted e)
  from t have h2: "sd_pwr_ctrl_handle (snd (sd_unmount ?d (snd (sd_mount ?d sd_start)))) = None"
    and m3: "fst (sd_mount ?e (snd (sd_unmount ?d (snd (sd_mount ?d sd_start))))) = ESP_OK"
    by blast+
  from a b c s2 h2 m3 show ?thesis
    by (intro conjI)
qed

section \<open>The Bluetooth device list\<close>

declare find_device_from.simps [simp del]

lemma find_device_from_result:
  "find_device_from s a i = - 1 \<and> (\<forall>j. i \<le> j \<and> j < device_count s \<longrightarrow> bda (devices s ! j) \<noteq> a) \<or>
   (\<exists>k. find_device_from s a i = int k \<and> i \<le> k \<and> k < device_count s \<and>
        bda (devices s ! k) = a)"
proof (induction s a i rule: find_device_from.induct)
  case (1 s a i)
  show ?case
  proof (cases "i < device_count s")
    case False
    then show ?thesis
      by (auto simp: find_device_from.simps [of s a i])
  next
    case in_range: True
    show ?thesis
    proof (cases "bda (devices s ! i) = a")
      case True
      with in_range show ?thesis
        by (simp add: find_device_from.simps [of s a i])
    next
      case False
      with in_range have eq: "find_device_from s a i = find_device_from s a (Suc i)"
        by (simp add: find_device_from.simps [of s a i])
      from "1.IH" [OF in_range False] show ?thesis
      proof (elim disjE conjE exE)
        assume "find_device_from s a (Suc i) = - 1"
          and none: "\<forall>j. Suc i \<le> j \<and> j < device_count s \<longrightarrow> bda (devices s ! j) \<noteq> a"
        moreover have "bda (devices s ! j) \<noteq> a" if "i \<le> j" "j < device_count s" for j
          using that none False by (cases "j = i") auto
        ultimately show ?thesis
          by (simp add: eq)
      next
        fix k
        assume "find_device_from s a (Suc i) = int k" "Suc i \<le> k" "k < device_count s"
          "bda (devices s ! k) = a"
        then show ?thesis
          by (auto simp: eq)
      qed
    qed
  qed
qed

lemma find_device_cases:
  obtains (absent) "find_device s a = - 1" "\<forall>j<device_count s. bda (devices s ! j) \<noteq> a"
  | (present) k where "find_device s a = int k" "k < device_count s" "bda (devices s ! k) = a"
  using find_device_from_result [of s a 0] unfolding find_device_def by auto

lemma absent_iff:
  assumes "device_count s \<le> length (devices s)"
  shows "(\<forall>j<device_count s. bda (devices s ! j) \<noteq> a) \<longleftrightarrow> a \<notin> bda ` set (entries s)"
proof -
  from assms have len: "length (entries s) = device_count s"
    by (simp add: entries_def)
  have nth: "entries s ! j = devices s ! j" if "j < device_count s" for j
    using that by (simp add: entries_def)
  show ?thesis
  proof
    assume none: "\<forall>j<device_count s. bda (devices s ! j) \<noteq> a"
    show "a \<notin> bda ` set (entries s)"
    proof
      assume "a \<in> bda ` set (entries s)"
      then obtain d where "d \<in> set (entries s)" and d: "bda d = a"
        by auto
      then obtain j where j: "j < device_count s" and "entries s ! j = d"
        by (auto simp: in_set_conv_nth len)
      with nth [OF j] have "devices s ! j = d"
        by simp
      with none j d show False
        by blast
    qed
  next
    assume absent: "a \<notin> bda ` set (entries s)"
    show "\<forall>j<device_count s. bda (devices s ! j) \<noteq> a"
    proof (intro allI impI)
      fix j
      assume j: "j < device_count s"
      then have "entries s ! j \<in> set (entries s)"
        by (simp add: len)
      with nth [OF j] have "devices s ! j \<in> set (entries s)"
        by simp
      with absent show "bda (devices s ! j) \<noteq> a"
        by blast
    qed
  qed
qed

lemma update_existing:
  assumes "device_mutex s" and "find_device s a = int k"
  shows "add_or_update_device a nm r s =
         s\<lparr>devices := (devices s)[k :=
              (if nm \<noteq> None \<and> the nm \<noteq> [] \<and> \<not> has_name (devices s ! k)
               then (devices s ! k)\<lparr>rssi := r, name := take 31 (the nm), has_name := True\<rparr>
               else (devices s ! k)\<lparr>rssi := r\<rparr>)]\<rparr>"
  using assms by (simp add: add_or_update_device_def Let_def strncpy31_def)

lemma add_new:
  assumes "device_mutex s" and "find_device s a = - 1" and "device_count s < MAX_DEVICES"
  shows "add_or_update_device a nm r s =
         s\<lparr>devices := (devices s)[device_count s :=
              (devices s ! device_count s)
                \<lparr>bda := a, rssi := r,
                 name := (if nm \<noteq> None \<and> the nm \<noteq> [] then take 31 (the nm) else []),
                 has_name := (nm \<noteq> None \<and> the nm \<noteq> [])\<rparr>],
           device_count := device_count s + 1\<rparr>"
  using assms by (simp add: add_or_update_device_def Let_def strncpy31_def)

lemma full_ignores_new:
  assumes "find_device s a = - 1" and "device_count s = MAX_DEVICES"
  shows "add_or_update_device a nm r s = s"
  using assms by (simp add: add_or_update_device_def Let_def)

lemma device_count_step:
  "device_count s \<le> MAX_DEVICES \<Longrightarrow> device_count (add_or_update_device a nm r s) \<le> MAX_DEVICES"
  by (simp add: add_or_update_device_def Let_def)

lemma device_count_scan:
  "device_count s \<le> MAX_DEVICES \<Longrightarrow> device_count (scan_results rs s) \<le> MAX_DEVICES"
proof (induction rs arbitrary: s)
  case Nil
  then show ?case by simp
next
  case (Cons x rs)
  obtain a nm r where x: "x = (a, nm, r)"
    by (cases x)
  from Cons.prems have "device_count (add_or_update_device a nm r s) \<le> MAX_DEVICES"
    by (rule device_count_step)
  from Cons.IH [OF this] show ?case
    by (simp add: x)
qed

lemma entries_length: "device_count s \<le> length (devices s) \<Longrightarrow> length (entries s) = device_count s"
  by (simp add: entries_def)

lemma entries_nth: "j < device_count s \<Longrightarrow> entries s ! j = devices s ! j"
  by (simp add: entries_def)

lemma entries_update:
  "entries (s\<lparr>devices := (devices s)[k := d]\<rparr>) = (entries s)[k := d]"
  by (simp add: entries_def take_update_swap)

lemma entries_add:
  assumes "device_count s < length (devices s)"
  shows "entries (s\<lparr>devices := (devices s)[device_count s := d],
                   device_count := device_count s + 1\<rparr>) = entries s @ [d]"
  using assms by (simp add: entries_def take_Suc_conv_app_nth)

lemma filter_unique:
  "distinct (map f xs) \<Longrightarrow> k < length xs \<Longrightarrow> f (xs ! k) = a \<Longrightarrow>
   filter (\<lambda>d. f d = a) xs = [xs ! k]"
proof (induction xs arbitrary: k)
  case Nil
  then show ?case by simp
next
  case (Cons x xs)
  show ?case
  proof (cases k)
    case 0
    with Cons.prems have "f x = a" and "f x \<notin> f ` set xs"
      by simp_all
    then have "f x = a" and "\<forall>d\<in>set xs. f d \<noteq> a"
      by blast+
    then have "filter (\<lambda>d. f d = a) xs = []"
      by (simp add: filter_empty_conv)
    with \<open>f x = a\<close> 0 show ?thesis
      by simp
  next
    case (Suc j)
    with Cons.prems have j: "j < length xs" "f (xs ! j) = a" and d: "distinct (map f xs)"
      by simp_all
    from j have "xs ! j \<in> set xs"
      by simp
    with Cons.prems(1) j(2) have "f x \<noteq> a"
      by auto
    with Cons.IH [OF d j] Suc show ?thesis
      by simp
  qed
qed

text \<open>What one report does to the entries in use, by the three branches.\<close>

lemma report_cases:
  assumes "ble_wf s"
  obtains
    (updated) k where "k < device_count s" "bda (devices s ! k) = a"
      "entries (add_or_update_device a nm r s) =
         (entries s)[k :=
           (if nm \<noteq> None \<and> the nm \<noteq> [] \<and> \<not> has_name (devices s ! k)
            then (devices s ! k)\<lparr>rssi := r, name := take 31 (the nm), has_name := True\<rparr>
            else (devices s ! k)\<lparr>rssi := r\<rparr>)]"
      "device_count (add_or_update_device a nm r s) = device_count s"
      "length (devices (add_or_update_device a nm r s)) = MAX_DEVICES"
      "device_mutex (add_or_update_device a nm r s)"
  | (added) "a \<notin> bda ` set (entries s)" "device_count s < MAX_DEVICES"
      "entries (add_or_update_device a nm r s) =
         entries s @
           [(devices s ! device_count s)
              \<lparr>bda := a, rssi := r,
               name := (if nm \<noteq> None \<and> the nm \<noteq> [] then take 31 (the nm) else []),
               has_name := (nm \<noteq> None \<and> the nm \<noteq> [])\<rparr>]"
      "device_count (add_or_update_device a nm r s) = device_count s + 1"
      "length (devices (add_or_update_device a nm r s)) = MAX_DEVICES"
      "device_mutex (add_or_update_device a nm r s)"
  | (full) "a \<notin> bda ` set (entries s)" "device_count s = MAX_DEVICES"
      "add_or_update_device a nm r s = s"
proof -
  from assms have wf: "length (devices s) = MAX_DEVICES" "device_count s \<le> MAX_DEVICES"
    "device_mutex s"
    by (simp_all add: ble_wf_def)
  show thesis
  proof (cases s a rule: find_device_cases)
    case absent
    with wf have notin: "a \<notin> bda ` set (entries s)"
      by (simp add: absent_iff)
    show thesis
    proof (cases "device_count s < MAX_DEVICES")
      case True
      with wf absent have eq: "add_or_update_device a nm r s =
          s\<lparr>devices := (devices s)[device_count s :=
               (devices s ! device_count s)
                 \<lparr>bda := a, rssi := r,
                  name := (if nm \<noteq> None \<and> the nm \<noteq> [] then take 31 (the nm) else []),
                  has_name := (nm \<noteq> None \<and> the nm \<noteq> [])\<rparr>],
            device_count := device_count s + 1\<rparr>"
        by (intro add_new) simp_all
      from True wf have "device_count s < length (devices s)"
        by simp
      then show thesis
        using notin True wf by (intro added) (simp_all only: eq entries_add, simp_all)
    next
      case False
      with wf have "device_count s = MAX_DEVICES"
        by simp
      with absent notin show thesis
        by (intro full) (simp_all add: full_ignores_new)
    qed
  next
    case (present k)
    with wf have eq: "add_or_update_device a nm r s =
        s\<lparr>devices := (devices s)[k :=
             (if nm \<noteq> None \<and> the nm \<noteq> [] \<and> \<not> has_name (devices s ! k)
              then (devices s ! k)\<lparr>rssi := r, name := take 31 (the nm), has_name := True\<rparr>
              else (devices s ! k)\<lparr>rssi := r\<rparr>)]\<rparr>"
      by (intro update_existing) simp_all
    show thesis
      using present wf by (intro updated [of k]) (simp_all only: eq entries_update, simp_all)
  qed
qed

lemma ble_wf_report:
  assumes "ble_wf s"
  shows "ble_wf (add_or_update_device a nm r s)"
  using assms
proof (cases rule: report_cases [where a = a and nm = nm and r = r])
  case (updated k)
  from assms have len: "length (entries s) = device_count s"
    by (simp add: ble_wf_def entries_length)
  from updated(1,2) have "map bda (entries s) ! k = a"
    by (simp add: len entries_nth)
  then have "(map bda (entries s))[k := a] = map bda (entries s)"
    by (metis list_update_id)
  with updated(2) have "map bda (entries (add_or_update_device a nm r s)) = map bda (entries s)"
    by (simp add: updated(3) map_update)
  with assms updated show ?thesis
    by (simp add: ble_wf_def)
next
  case added
  with assms show ?thesis
    by (simp add: ble_wf_def)
next
  case full
  with assms show ?thesis
    by simp
qed

lemma ble_wf_scan: "ble_wf s \<Longrightarrow> ble_wf (scan_results rs s)"
proof (induction rs arbitrary: s)
  case Nil
  then show ?case by simp
next
  case (Cons x rs)
  obtain a nm r where x: "x = (a, nm, r)"
    by (cases x)
  from Cons.prems have "ble_wf (add_or_update_device a nm r s)"
    by (rule ble_wf_report)
  from Cons.IH [OF this] show ?case
    by (simp add: x)
qed

lemma ble_wf_start: "device_mutex s \<Longrightarrow> ble_wf (start_ble_scan s)"
  by (simp add: ble_wf_def start_ble_scan_def entries_def)

lemma listed_after_report:
  assumes "ble_wf s" and "a \<in> bda ` set (entries s) \<or> device_count s < MAX_DEVICES"
  shows "a \<in> bda ` set (entries (add_or_update_device a nm r s))"
  using assms(1)
proof (cases rule: report_cases [where a = a and nm = nm and r = r])
  case (updated k)
  let ?d = "if nm \<noteq> None \<and> the nm \<noteq> [] \<and> \<not> has_name (devices s ! k)
            then (devices s ! k)\<lparr>rssi := r, name := take 31 (the nm), has_name := True\<rparr>
            else (devices s ! k)\<lparr>rssi := r\<rparr>"
  from assms(1) updated(1) have "k < length (entries s)"
    by (simp add: ble_wf_def entries_length)
  then have "?d \<in> set ((entries s)[k := ?d])"
    by (rule set_update_memI)
  then have "bda ?d \<in> bda ` set ((entries s)[k := ?d])"
    by (rule imageI)
  moreover from updated(2) have "bda ?d = a"
    by simp
  ultimately have "a \<in> bda ` set ((entries s)[k := ?d])"
    by simp
  then show ?thesis
    by (simp only: updated(3))
next
  case added
  then show ?thesis
    by simp
next
  case full
  with assms(2) show ?thesis
    by simp
qed

lemma unnamed_after_report:
  assumes "ble_wf s" and "nm = None \<or> nm = Some []"
    and "\<forall>d\<in>set (entries s). bda d = a \<longrightarrow> \<not> has_name d"
  shows "\<forall>d\<in>set (entries (add_or_update_device a nm r s)). bda d = a \<longrightarrow> \<not> has_name d"
  using assms(1)
proof (cases rule: report_cases [where a = a and nm = nm and r = r])
  case (updated k)
  from assms(1) updated(1) have k: "k < length (entries s)" "entries s ! k = devices s ! k"
    by (simp_all add: ble_wf_def entries_length entries_nth)
  then have "devices s ! k \<in> set (entries s)"
    by (metis nth_mem)
  with assms(3) updated(2) have unnamed: "\<not> has_name (devices s ! k)"
    by blast
  from assms(2) have "entries (add_or_update_device a nm r s) =
      (entries s)[k := (devices s ! k)\<lparr>rssi := r\<rparr>]"
    unfolding updated(3) by auto
  moreover have "set ((entries s)[k := (devices s ! k)\<lparr>rssi := r\<rparr>])
      \<subseteq> insert ((devices s ! k)\<lparr>rssi := r\<rparr>) (set (entries s))"
    by (rule set_update_subset_insert)
  ultimately show ?thesis
    using assms(3) unnamed by auto
next
  case added
  with assms(2,3) show ?thesis
    by auto
next
  case full
  with assms(3) show ?thesis
    by simp
qed

lemma named_report:
  assumes "ble_wf s" and "a \<in> bda ` set (entries s)"
    and "\<forall>d\<in>set (entries s). bda d = a \<longrightarrow> \<not> has_name d" and "n \<noteq> []"
  shows "entries_of (add_or_update_device a (Some n) r s) a =
         [\<lparr>bda = a, name = take 31 n, rssi = r, has_name = True\<rparr>]"
  using assms(1)
proof (cases rule: report_cases [where a = a and nm = "Some n" and r = r])
  case (updated k)
  let ?s = "add_or_update_device a (Some n) r s"
  let ?d = "(devices s ! k)\<lparr>rssi := r, name := take 31 n, has_name := True\<rparr>"
  from assms(1) updated(1) have k: "k < length (entries s)" "entries s ! k = devices s ! k"
    by (simp_all add: ble_wf_def entries_length entries_nth)
  then have "devices s ! k \<in> set (entries s)"
    by (metis nth_mem)
  with assms(3) updated(2) have "\<not> has_name (devices s ! k)"
    by blast
  with assms(4) have e: "entries ?s = (entries s)[k := ?d]"
    unfolding updated(3) by simp
  from assms(1) have "ble_wf ?s"
    by (rule ble_wf_report)
  then have "distinct (map bda (entries ?s))"
    by (simp add: ble_wf_def)
  moreover from k have "k < length (entries ?s)" and "entries ?s ! k = ?d"
    by (simp_all add: e)
  moreover from updated(2) have "bda ?d = a"
    by simp
  ultimately have "filter (\<lambda>d. bda d = a) (entries ?s) = [entries ?s ! k]"
    by (intro filter_unique) simp_all
  moreover from updated(2) have "?d = \<lparr>bda = a, name = take 31 n, rssi = r, has_name = True\<rparr>"
    by (cases "devices s ! k") simp
  ultimately show ?thesis
    using \<open>entries ?s ! k = ?d\<close> by (simp add: entries_of_def)
next
  case added
  with assms(2) show ?thesis
    by simp
next
  case full
  with assms(2) show ?thesis
    by simp
qed

text \<open>
  C8, as the code has it. Let the device list be well formed, let it be not full or hold
  the address already, and let no name be recorded for the address yet. If the address
  is reported twice, the first time without a name (a \<open>NULL\<close> or an empty name) and the
  second time with a name, then the list holds exactly one entry for the address: it
  carries the RSSI of the second report and the name of the second report, cut at 31
  characters as \<open>strncpy\<close> does.
\<close>

theorem same_address_reported_twice:
  assumes "ble_wf s"
    and "a \<in> bda ` set (entries s) \<or> device_count s < MAX_DEVICES"
    and "\<forall>d\<in>set (entries s). bda d = a \<longrightarrow> \<not> has_name d"
    and "nm = None \<or> nm = Some []" and "n \<noteq> []"
  shows "entries_of
           (add_or_update_device a (Some n) r2 (add_or_update_device a nm r1 s)) a =
         [\<lparr>bda = a, name = take 31 n, rssi = r2, has_name = True\<rparr>]"
proof -
  let ?s = "add_or_update_device a nm r1 s"
  from assms(1) have "ble_wf ?s"
    by (rule ble_wf_report)
  moreover from assms(1,2) have "a \<in> bda ` set (entries ?s)"
    by (rule listed_after_report)
  moreover from assms(1,4,3) have "\<forall>d\<in>set (entries ?s). bda d = a \<longrightarrow> \<not> has_name d"
    by (rule unnamed_after_report)
  ultimately show ?thesis
    using assms(5) by (rule named_report)
qed

theorem same_address_reported_twice_witness:
  "ble_wf (start_ble_scan \<lparr>devices = [], device_count = 0, device_mutex = True\<rparr>) \<and>
   device_count (start_ble_scan \<lparr>devices = [], device_count = 0, device_mutex = True\<rparr>)
     < MAX_DEVICES \<and>
   entries (start_ble_scan \<lparr>devices = [], device_count = 0, device_mutex = True\<rparr>) = [] \<and>
   ''Tag'' \<noteq> [] \<and>
   entries_of
     (add_or_update_device (1, 2, 3, 4, 5, 6) (Some ''Tag'') 190
       (add_or_update_device (1, 2, 3, 4, 5, 6) (Some []) 200
         (start_ble_scan \<lparr>devices = [], device_count = 0, device_mutex = True\<rparr>)))
     (1, 2, 3, 4, 5, 6) =
   [\<lparr>bda = (1, 2, 3, 4, 5, 6), name = ''Tag'', rssi = 190, has_name = True\<rparr>]"
proof -
  let ?s = "start_ble_scan \<lparr>devices = [], device_count = 0, device_mutex = True\<rparr>"
  have wf: "ble_wf ?s"
    by (rule ble_wf_start) simp
  have room: "device_count ?s < MAX_DEVICES" and empty: "entries ?s = []"
    by (simp_all add: start_ble_scan_def MAX_DEVICES_def entries_def)
  from room have h2: "(1, 2, 3, 4, 5, 6) \<in> bda ` set (entries ?s) \<or> device_count ?s < MAX_DEVICES"
    by simp
  from empty have h3: "\<forall>d\<in>set (entries ?s). bda d = (1, 2, 3, 4, 5, 6) \<longrightarrow> \<not> has_name d"
    by simp
  have h4: "Some [] = None \<or> Some [] = Some ([] :: string)"
    by simp
  have h5: "''Tag'' \<noteq> []"
    by simp
  from same_address_reported_twice [OF wf h2 h3 h4 h5, of 190 200] wf room empty
  show ?thesis
    by simp
qed

lemma twenty_devices_nth:
  "j < 20 \<Longrightarrow> devices twenty_devices ! j = numbered_device j"
  by (simp add: twenty_devices_def)

lemma twenty_devices_wf: "ble_wf twenty_devices"
proof -
  have "inj_on (\<lambda>i. (0 :: 8 word, 0 :: 8 word, 0 :: 8 word, 0 :: 8 word, 0 :: 8 word,
      of_nat i :: 8 word)) {0..<20}"
    by (auto simp: inj_on_def word_of_nat_eq_iff take_bit_nat_eq_self)
  then have "distinct (map (\<lambda>i. (0 :: 8 word, 0 :: 8 word, 0 :: 8 word, 0 :: 8 word,
      0 :: 8 word, of_nat i :: 8 word)) [0..<20])"
    by (simp add: distinct_map)
  moreover have "map bda (entries twenty_devices) =
      map (\<lambda>i. (0, 0, 0, 0, 0, of_nat i)) [0..<20]"
    by (simp add: entries_def twenty_devices_def numbered_device_def)
  ultimately have "distinct (map bda (entries twenty_devices))"
    by (simp only:)
  moreover have "length (devices twenty_devices) = MAX_DEVICES"
    "device_count twenty_devices \<le> MAX_DEVICES" "device_mutex twenty_devices"
    by (simp_all add: twenty_devices_def MAX_DEVICES_def)
  ultimately show ?thesis
    by (simp only: ble_wf_def simp_thms)
qed

lemma twenty_devices_absent: "find_device twenty_devices (1, 0, 0, 0, 0, 0) = - 1"
proof (cases twenty_devices "(1 :: 8 word, 0 :: 8 word, 0 :: 8 word, 0 :: 8 word, 0 :: 8 word,
    0 :: 8 word)" rule: find_device_cases)
  case absent
  then show ?thesis by simp
next
  case (present k)
  then have "k < 20"
    by (simp add: twenty_devices_def)
  with present(3) show ?thesis
    by (simp add: twenty_devices_nth numbered_device_def)
qed

text \<open>
  C8 as stated, for every device list state, fails on a full list: both reports of an
  address that is not in the list are dropped, and the list has no entry for it.
  \<open>twenty_devices\<close> is a full list of twenty named devices.
\<close>

theorem full_list_drops_device_counterexample:
  "device_count twenty_devices = MAX_DEVICES \<and>
   entries_of
     (add_or_update_device (1, 0, 0, 0, 0, 0) (Some ''Tag'') 190
       (add_or_update_device (1, 0, 0, 0, 0, 0) None 200 twenty_devices))
     (1, 0, 0, 0, 0, 0) = []"
proof -
  have full: "device_count twenty_devices = MAX_DEVICES"
    by (simp add: twenty_devices_def MAX_DEVICES_def)
  have same: "add_or_update_device (1, 0, 0, 0, 0, 0) nm r twenty_devices = twenty_devices"
    for nm r
    using twenty_devices_absent full by (rule full_ignores_new)
  have "bda d \<noteq> (1, 0, 0, 0, 0, 0)" if "d \<in> set (entries twenty_devices)" for d
    using that by (auto simp: entries_def twenty_devices_def numbered_device_def)
  then have "entries_of twenty_devices (1, 0, 0, 0, 0, 0) = []"
    by (simp add: entries_of_def filter_empty_conv)
  with full show ?thesis
    by (simp add: same)
qed

text \<open>
  C10, as the code has it. From a well-formed list, after any sequence of reports the
  device count is at most \<open>MAX_DEVICES\<close>, which is 20. On a full list a report for an
  address not in the list leaves the whole state unchanged. A report for an address in
  the list, full or not, rewrites that one entry: its RSSI always, and its name only
  when the report carries a non-empty name and the entry has no name yet.
\<close>

theorem device_list_bounded:
  assumes "ble_wf s"
  shows "MAX_DEVICES = 20 \<and>
         device_count (scan_results rs s) \<le> MAX_DEVICES \<and>
         (device_count s = MAX_DEVICES \<and> a \<notin> bda ` set (entries s) \<longrightarrow>
            add_or_update_device a nm r s = s) \<and>
         (a \<in> bda ` set (entries s) \<longrightarrow>
            (\<exists>k<device_count s. bda (devices s ! k) = a \<and>
               add_or_update_device a nm r s =
                 s\<lparr>devices := (devices s)[k :=
                      (if nm \<noteq> None \<and> the nm \<noteq> [] \<and> \<not> has_name (devices s ! k)
                       then (devices s ! k)
                              \<lparr>rssi := r, name := take 31 (the nm), has_name := True\<rparr>
                       else (devices s ! k)\<lparr>rssi := r\<rparr>)]\<rparr>))"
proof -
  from assms have wf: "device_count s \<le> length (devices s)" "device_count s \<le> MAX_DEVICES"
    "device_mutex s"
    by (simp_all add: ble_wf_def)
  from wf(2) have bound: "device_count (scan_results rs s) \<le> MAX_DEVICES"
    by (rule device_count_scan)
  have new: "add_or_update_device a nm r s = s"
    if "device_count s = MAX_DEVICES" "a \<notin> bda ` set (entries s)"
  proof (cases s a rule: find_device_cases)
    case absent
    then show ?thesis
      using that(1) by (simp add: full_ignores_new)
  next
    case (present k)
    with wf(1) that(2) show ?thesis
      using absent_iff [of s a] by blast
  qed
  have old: "\<exists>k<device_count s. bda (devices s ! k) = a \<and>
      add_or_update_device a nm r s =
        s\<lparr>devices := (devices s)[k :=
             (if nm \<noteq> None \<and> the nm \<noteq> [] \<and> \<not> has_name (devices s ! k)
              then (devices s ! k)\<lparr>rssi := r, name := take 31 (the nm), has_name := True\<rparr>
              else (devices s ! k)\<lparr>rssi := r\<rparr>)]\<rparr>"
    if "a \<in> bda ` set (entries s)"
  proof (cases s a rule: find_device_cases)
    case absent
    with wf(1) that show ?thesis
      using absent_iff [of s a] by blast
  next
    case (present k)
    with wf(3) show ?thesis
      using update_existing [of s a k nm r] by blast
  qed
  from bound new old show ?thesis
    by (simp add: MAX_DEVICES_def)
qed

theorem device_list_bounded_witness:
  "ble_wf twenty_devices \<and> device_count twenty_devices = MAX_DEVICES \<and>
   (1, 0, 0, 0, 0, 0) \<notin> bda ` set (entries twenty_devices) \<and>
   (0, 0, 0, 0, 0, 0) \<in> bda ` set (entries twenty_devices) \<and>
   device_count (scan_results [((1, 0, 0, 0, 0, 0), None, 200)] twenty_devices) \<le> 20 \<and>
   add_or_update_device (1, 0, 0, 0, 0, 0) None 200 twenty_devices = twenty_devices \<and>
   device_count (add_or_update_device (0, 0, 0, 0, 0, 0) None 200 twenty_devices) = 20"
proof -
  have full: "device_count twenty_devices = MAX_DEVICES"
    by (simp add: twenty_devices_def MAX_DEVICES_def)
  have len: "device_count twenty_devices \<le> length (devices twenty_devices)"
    by (simp add: twenty_devices_def)
  have "\<forall>j<device_count twenty_devices. bda (devices twenty_devices ! j) \<noteq> (1, 0, 0, 0, 0, 0)"
    by (simp add: twenty_devices_def numbered_device_def)
  then have absent: "(1, 0, 0, 0, 0, 0) \<notin> bda ` set (entries twenty_devices)"
    using absent_iff [OF len, of "(1, 0, 0, 0, 0, 0)"] by blast
  have "numbered_device 0 \<in> set (entries twenty_devices)"
    by (simp add: entries_def twenty_devices_def)
  then have "bda (numbered_device 0) \<in> bda ` set (entries twenty_devices)"
    by (rule imageI)
  then have present: "(0, 0, 0, 0, 0, 0) \<in> bda ` set (entries twenty_devices)"
    by (simp add: numbered_device_def)
  note new = device_list_bounded [OF twenty_devices_wf,
      of "[((1, 0, 0, 0, 0, 0), None, 200)]" "(1, 0, 0, 0, 0, 0)" None 200]
  note old = device_list_bounded [OF twenty_devices_wf, of "[]" "(0, 0, 0, 0, 0, 0)" None 200]
  from new have bound:
    "device_count (scan_results [((1, 0, 0, 0, 0, 0), None, 200)] twenty_devices) \<le> 20"
    by (simp only:)
  from new full absent
  have same: "add_or_update_device (1, 0, 0, 0, 0, 0) None 200 twenty_devices = twenty_devices"
    by blast
  from old present obtain d k
    where "add_or_update_device (0, 0, 0, 0, 0, 0) None 200 twenty_devices =
      twenty_devices\<lparr>devices := (devices twenty_devices)[k := d]\<rparr>"
    by blast
  then have "device_count (add_or_update_device (0, 0, 0, 0, 0, 0) None 200 twenty_devices) =
      device_count twenty_devices"
    by simp
  with full have kept:
    "device_count (add_or_update_device (0, 0, 0, 0, 0, 0) None 200 twenty_devices) = 20"
    by (simp add: MAX_DEVICES_def)
  from twenty_devices_wf full absent present bound same kept show ?thesis
    by blast
qed

text \<open>
  C10 as stated has a report for a listed address update the entry's RSSI and name. The
  name is only written once: the first entry of \<open>twenty_devices\<close> is named ``dev'', and a
  report of its address with the name ``new'' changes the RSSI and keeps the name.
\<close>

theorem named_entry_keeps_name_counterexample:
  "device_count twenty_devices = MAX_DEVICES \<and>
   bda (devices twenty_devices ! 0) = (0, 0, 0, 0, 0, 0) \<and>
   name (devices twenty_devices ! 0) = ''dev'' \<and>
   rssi (devices (add_or_update_device (0, 0, 0, 0, 0, 0) (Some ''new'') 190 twenty_devices) ! 0)
     = 190 \<and>
   name (devices (add_or_update_device (0, 0, 0, 0, 0, 0) (Some ''new'') 190 twenty_devices) ! 0)
     = ''dev''"
proof -
  have d0: "devices twenty_devices ! 0 = numbered_device 0"
    by (rule twenty_devices_nth) simp
  have "find_device_from twenty_devices (0, 0, 0, 0, 0, 0) 0 = int 0"
    by (simp add: find_device_from.simps [of twenty_devices _ 0] d0 numbered_device_def)
      (simp add: twenty_devices_def)
  then have found: "find_device twenty_devices (0, 0, 0, 0, 0, 0) = int 0"
    by (simp only: find_device_def)
  have "device_mutex twenty_devices"
    by (simp add: twenty_devices_def)
  from update_existing [OF this found, of "Some ''new''" 190] d0 show ?thesis
    by (simp add: numbered_device_def) (simp add: twenty_devices_def MAX_DEVICES_def)
qed

end
